theory Spec2Isabelle
  imports Complex_Main "HOL-Library.AList"
begin

section \<open>Monte Carlo Tree Search: the data model\<close>

text \<open>
  The two modules \<^verbatim>\<open>mcts_vanilla.py\<close> and \<^verbatim>\<open>mcts_modified.py\<close> share
  \<^verbatim>\<open>traverse_nodes\<close>, \<^verbatim>\<open>expand_leaf\<close>, \<^verbatim>\<open>backpropagate\<close>, \<^verbatim>\<open>ucb\<close>,
  \<^verbatim>\<open>get_best_action\<close> and \<^verbatim>\<open>is_win\<close> word for word; they differ in
  \<^verbatim>\<open>num_nodes\<close>, in \<^verbatim>\<open>rollout\<close> and in the line of \<^verbatim>\<open>think\<close> that calls it.
  The shared functions are embedded once.

  Python exceptions are values of \<open>error\<close>; a function that may raise returns
  \<open>error + 'r\<close>. A loop that may run forever is a \<^theory_text>\<open>partial_function\<close> over
  \<open>option\<close>, where \<open>None\<close> stands for "does not return". Python floats are idealised
  as the reals.

  Nodes are Python objects held by reference. The store is built from the root by
  \<^verbatim>\<open>expand_leaf\<close>, which allocates every new node at the end, so the references the
  search holds are indices of the store.
\<close>

datatype error =
    ZeroDivisionError
  | ValueError
  | IndexError
  | AttributeError
  | AssertionError
  | KeyError

type_synonym ref = nat

text \<open>
  Modelled from the spec: the class \<^verbatim>\<open>MCTSNode\<close> (module \<^verbatim>\<open>mcts_node\<close>) is not among
  the sources. Its fields are the ones the code reads and writes and the spec lists:
  the parent link (\<open>None\<close> for the root), the action that led to the node, the
  children as a dictionary from action to node (an association list in insertion
  order, which is the order Python iterates a dict in), the untried actions, and the two
  counters. Nodes are objects shared by reference: they live in a store, a list of
  nodes, and a reference is an index into it.
\<close>

record 'a MCTSNode =
  parent :: "ref option"
  parent_action :: "'a option"
  child_nodes :: "('a \<times> ref) list"
  untried_actions :: "'a list"
  wins :: nat
  visits :: nat

type_synonym 'a store = "'a MCTSNode list"

text \<open>
  Modelled from the spec: the constructor \<^verbatim>\<open>MCTSNode(parent, parent_action, action_list)\<close>
  creates a node with no children and zero statistics.
\<close>

definition new_MCTSNode :: "ref option \<Rightarrow> 'a option \<Rightarrow> 'a list \<Rightarrow> 'a MCTSNode" where
  "new_MCTSNode p pa action_list =
     \<lparr>parent = p, parent_action = pa, child_nodes = [], untried_actions = action_list,
      wins = 0, visits = 0\<rparr>"

text \<open>
  Modelled from the spec: the class \<^verbatim>\<open>Board\<close> (module \<^verbatim>\<open>p2_t3\<close>) is not among the
  sources; the game is a parameter of every function. A Python variable holding a state
  or an action may hold \<^verbatim>\<open>None\<close> (\<^verbatim>\<open>next_state\<close> may return it, and the root's
  \<^verbatim>\<open>parent_action\<close> is \<^verbatim>\<open>None\<close>), and the code hands such a variable to the board
  unchecked, so the board's functions take optional states and actions.
  \<^verbatim>\<open>points_values\<close> returns \<^verbatim>\<open>None\<close> or a dictionary from identity to outcome.
\<close>

record ('s, 'a) Board =
  current_player :: "'s option \<Rightarrow> int"
  legal_actions :: "'s option \<Rightarrow> 'a list"
  next_state :: "'s option \<Rightarrow> 'a option \<Rightarrow> 's option"
  is_ended :: "'s option \<Rightarrow> bool"
  points_values :: "'s option \<Rightarrow> (int \<rightharpoonup> int) option"

text \<open>
  \<^verbatim>\<open>random.choice(seq)\<close> raises \<^verbatim>\<open>IndexError\<close> on an empty sequence and otherwise
  returns one of its elements. The source of randomness is an infinite sequence of
  draws; a choice reads the first draw and leaves the rest.
\<close>

type_synonym rng = "nat \<Rightarrow> nat"

definition random_choice :: "'x list \<Rightarrow> rng \<Rightarrow> error + ('x \<times> rng)" where
  "random_choice xs g =
     (if xs = [] then Inl IndexError
      else Inr (xs ! (g 0 mod length xs), \<lambda>i. g (Suc i)))"

definition num_nodes_vanilla :: nat where
  "num_nodes_vanilla = 100"

definition num_nodes_modified :: nat where
  "num_nodes_modified = 900"

definition explore_faction :: real where
  "explore_faction = 2"

section \<open>The reinforcement table of the modified rollout\<close>

text \<open>
  The second loop of \<^verbatim>\<open>rollout\<close> in \<^verbatim>\<open>mcts_modified.py\<close>:
  \<^verbatim>\<open>
    while len(action_used) != 0:
        curr_action = action_used.pop()
        if curr_action[1] != winning_bot:
            continue
        if len(action_used) == 0:
            break
        preceding_action = action_used.pop()
        last_good_replies[preceding_action[0]] = curr_action[0]
  \<close>
  \<^verbatim>\<open>pop()\<close> takes the last element of the list. The global dictionary
  \<^verbatim>\<open>last_good_replies\<close> is passed in and returned.
\<close>

function update_replies ::
  "('a \<rightharpoonup> 'a) \<Rightarrow> ('a \<times> int) list \<Rightarrow> int \<Rightarrow> ('a \<rightharpoonup> 'a)" where
  "update_replies last_good_replies action_used winning_bot =
     (if length action_used \<noteq> 0 then
        (let curr_action = last action_used;
             action_used1 = butlast action_used
         in if snd curr_action \<noteq> winning_bot then
              update_replies last_good_replies action_used1 winning_bot
            else if length action_used1 = 0 then last_good_replies
            else
              (let preceding_action = last action_used1;
                   action_used2 = butlast action_used1
               in update_replies
                    (last_good_replies(fst preceding_action \<mapsto> fst curr_action))
                    action_used2 winning_bot))
      else last_good_replies)"
  by pat_completeness auto
termination
  by (relation "measure (\<lambda>(t, xs, w). length xs)") auto

declare update_replies.simps [simp del]

section \<open>The selection policy\<close>

text \<open>
  \<^verbatim>\<open>ucb(node, is_opponent)\<close>. The division \<^verbatim>\<open>node.wins / node.visits\<close> raises
  \<^verbatim>\<open>ZeroDivisionError\<close> when the node has no visit; \<^verbatim>\<open>node.parent.visits\<close> raises
  \<^verbatim>\<open>AttributeError\<close> when the parent is \<^verbatim>\<open>None\<close>; \<^verbatim>\<open>math.log(0)\<close> raises
  \<^verbatim>\<open>ValueError\<close>. A parent with at least one visit has a non-negative logarithm, so
  \<^verbatim>\<open>math.sqrt\<close> gets a non-negative argument and does not raise.
\<close>

definition ucb :: "'a store \<Rightarrow> ref \<Rightarrow> bool \<Rightarrow> error + real" where
  "ucb h node is_opponent =
     (if visits (h ! node) = 0 then Inl ZeroDivisionError
      else
        (let ucb_val = real (wins (h ! node)) / real (visits (h ! node));
             ucb_val = (if is_opponent then 1 - ucb_val else ucb_val)
         in case parent (h ! node) of
              None \<Rightarrow> Inl AttributeError
            | Some p \<Rightarrow>
                if visits (h ! p) = 0 then Inl ValueError
                else Inr (ucb_val + explore_faction *
                            sqrt (ln (real (visits (h ! p))) / real (visits (h ! node))))))"

section \<open>The four phases\<close>

text \<open>
  The \<^verbatim>\<open>for\<close> loop of \<^verbatim>\<open>traverse_nodes\<close> over \<^verbatim>\<open>node.child_nodes.values()\<close>, with
  the running pair \<^verbatim>\<open>best_node\<close>. The flag \<^verbatim>\<open>opponent\<close> is computed in every round
  from values that do not change in the loop.
\<close>

fun traverse_best ::
  "'a store \<Rightarrow> bool \<Rightarrow> real \<times> ref option \<Rightarrow> ('a \<times> ref) list \<Rightarrow> error + (real \<times> ref option)" where
  "traverse_best h opponent best_node [] = Inr best_node"
| "traverse_best h opponent best_node ((a, c_node) # rest) =
     (case ucb h c_node opponent of
        Inl e \<Rightarrow> Inl e
      | Inr val \<Rightarrow>
          traverse_best h opponent
            (if val \<ge> fst best_node then (val, Some c_node) else best_node) rest)"

partial_function (option) traverse_nodes ::
  "'a store \<Rightarrow> ref \<Rightarrow> ('s, 'a) Board \<Rightarrow> 's option \<Rightarrow> int \<Rightarrow> (error + ref \<times> 's option) option" where
  "traverse_nodes h node board state bot_identity =
     (if length (untried_actions (h ! node)) > 0 then Some (Inr (node, state))
      else
        (case traverse_best h (current_player board state \<noteq> bot_identity) (0, None)
                (child_nodes (h ! node)) of
           Inl e \<Rightarrow> Some (Inl e)
         | Inr best_node \<Rightarrow>
             (case snd best_node of
                Some c \<Rightarrow>
                  traverse_nodes h c board
                    (next_state board state (parent_action (h ! c))) bot_identity
              | None \<Rightarrow> Some (Inr (node, state)))))"

text \<open>
  \<^verbatim>\<open>expand_leaf\<close>: \<^verbatim>\<open>list.remove\<close> deletes the first occurrence; the new node is
  allocated at the end of the store; \<^verbatim>\<open>dict.update\<close> overwrites the value of a key
  that is present and appends a new key otherwise.
\<close>

definition expand_leaf ::
  "'a store \<Rightarrow> ref \<Rightarrow> ('s, 'a) Board \<Rightarrow> 's option \<Rightarrow> rng
     \<Rightarrow> error + ('a store \<times> ref \<times> 's option \<times> rng)" where
  "expand_leaf h node board state g =
     (if \<not> is_ended board state \<and> length (untried_actions (h ! node)) > 0 then
        (case random_choice (untried_actions (h ! node)) g of
           Inl e \<Rightarrow> Inl e
         | Inr (new_action, g') \<Rightarrow>
             (let h1 = h[node := (h ! node)
                         \<lparr>untried_actions := remove1 new_action (untried_actions (h ! node))\<rparr>];
                  new_state = next_state board state (Some new_action);
                  new_legal_actions = legal_actions board new_state;
                  new_node = length h1;
                  h2 = h1 @ [new_MCTSNode (Some node) (Some new_action) new_legal_actions];
                  h3 = h2[node := (h2 ! node)
                         \<lparr>child_nodes := AList.update new_action new_node (child_nodes (h2 ! node))\<rparr>]
              in Inr (h3, new_node, new_state, g')))
      else Inr (h, node, state, g))"

text \<open>\<^verbatim>\<open>rollout\<close> of \<^verbatim>\<open>mcts_vanilla.py\<close>.\<close>

partial_function (option) rollout_vanilla ::
  "('s, 'a) Board \<Rightarrow> 's option \<Rightarrow> rng \<Rightarrow> (error + 's option \<times> rng) option" where
  "rollout_vanilla board state g =
     (if \<not> is_ended board state then
        (case random_choice (legal_actions board state) g of
           Inl e \<Rightarrow> Some (Inl e)
         | Inr (new_action, g') \<Rightarrow>
             (case next_state board state (Some new_action) of
                None \<Rightarrow> Some (Inr (state, g'))
              | Some s \<Rightarrow> rollout_vanilla board (Some s) g'))
      else Some (Inr (state, g)))"

text \<open>
  \<^verbatim>\<open>backpropagate\<close>: one round of the loop per call; the loop does not end on a store
  whose parent links form a cycle.
\<close>

partial_function (option) backpropagate ::
  "'a store \<Rightarrow> ref option \<Rightarrow> bool \<Rightarrow> 'a store option" where
  "backpropagate h node won =
     (case node of
        None \<Rightarrow> Some h
      | Some r \<Rightarrow>
          (let h1 = (if won then h[r := (h ! r)\<lparr>wins := wins (h ! r) + 1\<rparr>] else h);
               h2 = h1[r := (h1 ! r)\<lparr>visits := visits (h1 ! r) + 1\<rparr>]
           in backpropagate h2 (parent (h2 ! r)) won))"

text \<open>
  \<^verbatim>\<open>is_win\<close>: the assertion fails when \<^verbatim>\<open>points_values\<close> returns \<^verbatim>\<open>None\<close>; the
  subscript raises \<^verbatim>\<open>KeyError\<close> when the identity is not a key.
\<close>

definition is_win :: "('s, 'a) Board \<Rightarrow> 's option \<Rightarrow> int \<Rightarrow> error + bool" where
  "is_win board state identity_of_bot =
     (case points_values board state of
        None \<Rightarrow> Inl AssertionError
      | Some outcome \<Rightarrow>
          (case outcome identity_of_bot of
             None \<Rightarrow> Inl KeyError
           | Some v \<Rightarrow> Inr (v = 1)))"

section \<open>The final selection\<close>

text \<open>
  The \<^verbatim>\<open>for\<close> loop of \<^verbatim>\<open>get_best_action\<close>, with the running pair \<^verbatim>\<open>best_pick\<close>,
  and the read of \<^verbatim>\<open>best_pick[1].parent_action\<close>, which raises
  \<^verbatim>\<open>AttributeError\<close> when \<^verbatim>\<open>best_pick[1]\<close> is still \<^verbatim>\<open>None\<close>.
\<close>

fun best_pick_loop ::
  "'a store \<Rightarrow> real \<times> ref option \<Rightarrow> ('a \<times> ref) list \<Rightarrow> error + (real \<times> ref option)" where
  "best_pick_loop h best_pick [] = Inr best_pick"
| "best_pick_loop h best_pick ((a, c_node) # rest) =
     (if visits (h ! c_node) = 0 then Inl ZeroDivisionError
      else
        (let val = real (wins (h ! c_node)) / real (visits (h ! c_node))
         in best_pick_loop h (if val \<ge> fst best_pick then (val, Some c_node) else best_pick) rest))"

definition get_best_action :: "'a store \<Rightarrow> ref \<Rightarrow> error + 'a option" where
  "get_best_action h root_node =
     (case best_pick_loop h (0, None) (child_nodes (h ! root_node)) of
        Inl e \<Rightarrow> Inl e
      | Inr best_pick \<Rightarrow>
          (case snd best_pick of
             None \<Rightarrow> Inl AttributeError
           | Some c \<Rightarrow> Inr (parent_action (h ! c))))"

section \<open>The search driver of the vanilla variant\<close>

text \<open>
  One round of the \<^verbatim>\<open>for\<close> loop of \<^verbatim>\<open>think\<close> in \<^verbatim>\<open>mcts_vanilla.py\<close>. The root is
  the first node of the store.
\<close>

definition iteration_vanilla ::
  "('s, 'a) Board \<Rightarrow> 's option \<Rightarrow> int \<Rightarrow> 'a store \<Rightarrow> rng \<Rightarrow> (error + 'a store \<times> rng) option" where
  "iteration_vanilla board current_state bot_identity h g =
     (case traverse_nodes h 0 board current_state bot_identity of
        None \<Rightarrow> None
      | Some (Inl e) \<Rightarrow> Some (Inl e)
      | Some (Inr (node, state)) \<Rightarrow>
          (case expand_leaf h node board state g of
             Inl e \<Rightarrow> Some (Inl e)
           | Inr (h1, node1, state1, g1) \<Rightarrow>
               (case rollout_vanilla board state1 g1 of
                  None \<Rightarrow> None
                | Some (Inl e) \<Rightarrow> Some (Inl e)
                | Some (Inr (rollout_state, g2)) \<Rightarrow>
                    (case is_win board rollout_state bot_identity of
                       Inl e \<Rightarrow> Some (Inl e)
                     | Inr win \<Rightarrow>
                         (case backpropagate h1 (Some node1) win of
                            None \<Rightarrow> None
                          | Some h2 \<Rightarrow> Some (Inr (h2, g2)))))))"

fun loop_vanilla ::
  "nat \<Rightarrow> ('s, 'a) Board \<Rightarrow> 's option \<Rightarrow> int \<Rightarrow> 'a store \<Rightarrow> rng
     \<Rightarrow> (error + 'a store \<times> rng) option" where
  "loop_vanilla 0 board current_state bot_identity h g = Some (Inr (h, g))"
| "loop_vanilla (Suc n) board current_state bot_identity h g =
     (case iteration_vanilla board current_state bot_identity h g of
        None \<Rightarrow> None
      | Some (Inl e) \<Rightarrow> Some (Inl e)
      | Some (Inr (h', g')) \<Rightarrow> loop_vanilla n board current_state bot_identity h' g')"

definition think_vanilla ::
  "('s, 'a) Board \<Rightarrow> 's option \<Rightarrow> rng \<Rightarrow> (error + 'a option) option" where
  "think_vanilla board current_state g =
     (let bot_identity = current_player board current_state;
          root_node = new_MCTSNode None None (legal_actions board current_state)
      in case loop_vanilla num_nodes_vanilla board current_state bot_identity [root_node] g of
           None \<Rightarrow> None
         | Some (Inl e) \<Rightarrow> Some (Inl e)
         | Some (Inr (h, g')) \<Rightarrow> Some (get_best_action h 0))"

section \<open>The rollout and the search driver of the modified variant\<close>

text \<open>
  The choice of \<^verbatim>\<open>new_action\<close> in the first loop of \<^verbatim>\<open>rollout\<close> in
  \<^verbatim>\<open>mcts_modified.py\<close>: the stored reply to the previous action when there is one and
  it is legal, a random legal action otherwise.
\<close>

definition choose_action ::
  "('s, 'a) Board \<Rightarrow> ('a \<rightharpoonup> 'a) \<Rightarrow> 's option \<Rightarrow> 'a option \<Rightarrow> rng \<Rightarrow> error + ('a \<times> rng)" where
  "choose_action board last_good_replies state prev_action g =
     (case prev_action of
        None \<Rightarrow> random_choice (legal_actions board state) g
      | Some p \<Rightarrow>
          (case last_good_replies p of
             None \<Rightarrow> random_choice (legal_actions board state) g
           | Some new_action \<Rightarrow>
               if new_action \<notin> set (legal_actions board state)
               then random_choice (legal_actions board state) g
               else Inr (new_action, g)))"

text \<open>The first loop of the modified \<^verbatim>\<open>rollout\<close>, with the history \<^verbatim>\<open>action_used\<close>.\<close>

partial_function (option) playout_modified ::
  "('s, 'a) Board \<Rightarrow> ('a \<rightharpoonup> 'a) \<Rightarrow> 's option \<Rightarrow> ('a \<times> int) list \<Rightarrow> 'a option \<Rightarrow> rng
     \<Rightarrow> (error + 's option \<times> ('a \<times> int) list \<times> rng) option" where
  "playout_modified board last_good_replies state action_used prev_action g =
     (if \<not> is_ended board state then
        (case choose_action board last_good_replies state prev_action g of
           Inl e \<Rightarrow> Some (Inl e)
         | Inr (new_action, g') \<Rightarrow>
             (case next_state board state (Some new_action) of
                None \<Rightarrow> Some (Inr (state, action_used, g'))
              | Some s \<Rightarrow>
                  playout_modified board last_good_replies (Some s)
                    (action_used @ [(new_action, current_player board (Some s))])
                    (Some new_action) g'))
      else Some (Inr (state, action_used, g)))"

text \<open>
  The modified \<^verbatim>\<open>rollout\<close>: the playout, the win indicator, the winner, and the update
  of the table. It returns the pair \<^verbatim>\<open>(state, we_won)\<close>, and the table and the
  randomness as they are left.
\<close>

definition rollout_modified ::
  "('s, 'a) Board \<Rightarrow> 's option \<Rightarrow> int \<Rightarrow> ('a \<rightharpoonup> 'a) \<Rightarrow> rng
     \<Rightarrow> (error + ('s option \<times> bool) \<times> ('a \<rightharpoonup> 'a) \<times> rng) option" where
  "rollout_modified board state bot_identity last_good_replies g =
     (case playout_modified board last_good_replies state [] None g of
        None \<Rightarrow> None
      | Some (Inl e) \<Rightarrow> Some (Inl e)
      | Some (Inr (state', action_used, g')) \<Rightarrow>
          (case is_win board state' bot_identity of
             Inl e \<Rightarrow> Some (Inl e)
           | Inr we_won \<Rightarrow>
               (let winning_bot = (if we_won then bot_identity else bot_identity + 1);
                    winning_bot = (if winning_bot \<le> 2 then winning_bot else 1)
                in Some (Inr ((state', we_won),
                     update_replies last_good_replies action_used winning_bot, g')))))"

definition iteration_modified ::
  "('s, 'a) Board \<Rightarrow> 's option \<Rightarrow> int \<Rightarrow> 'a store \<Rightarrow> ('a \<rightharpoonup> 'a) \<Rightarrow> rng
     \<Rightarrow> (error + 'a store \<times> ('a \<rightharpoonup> 'a) \<times> rng) option" where
  "iteration_modified board current_state bot_identity h last_good_replies g =
     (case traverse_nodes h 0 board current_state bot_identity of
        None \<Rightarrow> None
      | Some (Inl e) \<Rightarrow> Some (Inl e)
      | Some (Inr (node, state)) \<Rightarrow>
          (case expand_leaf h node board state g of
             Inl e \<Rightarrow> Some (Inl e)
           | Inr (h1, node1, state1, g1) \<Rightarrow>
               (case rollout_modified board state1 bot_identity last_good_replies g1 of
                  None \<Rightarrow> None
                | Some (Inl e) \<Rightarrow> Some (Inl e)
                | Some (Inr ((rollout_state, win), t2, g2)) \<Rightarrow>
                    (case backpropagate h1 (Some node1) win of
                       None \<Rightarrow> None
                     | Some h2 \<Rightarrow> Some (Inr (h2, t2, g2))))))"

fun loop_modified ::
  "nat \<Rightarrow> ('s, 'a) Board \<Rightarrow> 's option \<Rightarrow> int \<Rightarrow> 'a store \<Rightarrow> ('a \<rightharpoonup> 'a) \<Rightarrow> rng
     \<Rightarrow> (error + 'a store \<times> ('a \<rightharpoonup> 'a) \<times> rng) option" where
  "loop_modified 0 board current_state bot_identity h t g = Some (Inr (h, t, g))"
| "loop_modified (Suc n) board current_state bot_identity h t g =
     (case iteration_modified board current_state bot_identity h t g of
        None \<Rightarrow> None
      | Some (Inl e) \<Rightarrow> Some (Inl e)
      | Some (Inr (h', t', g')) \<Rightarrow> loop_modified n board current_state bot_identity h' t' g')"

text \<open>
  \<^verbatim>\<open>think\<close> of \<^verbatim>\<open>mcts_modified.py\<close> returns the chosen action; the table is global
  and outlives the call, so the model returns it too.
\<close>

definition think_modified ::
  "('s, 'a) Board \<Rightarrow> 's option \<Rightarrow> ('a \<rightharpoonup> 'a) \<Rightarrow> rng
     \<Rightarrow> (error + 'a option \<times> ('a \<rightharpoonup> 'a)) option" where
  "think_modified board current_state last_good_replies g =
     (let bot_identity = current_player board current_state;
          root_node = new_MCTSNode None None (legal_actions board current_state)
      in case loop_modified num_nodes_modified board current_state bot_identity [root_node]
                last_good_replies g of
           None \<Rightarrow> None
         | Some (Inl e) \<Rightarrow> Some (Inl e)
         | Some (Inr (h, t, g')) \<Rightarrow>
             (case get_best_action h 0 of
                Inl e \<Rightarrow> Some (Inl e)
              | Inr best_action \<Rightarrow> Some (Inr (best_action, t))))"

section \<open>Predicates and fixtures of the properties\<close>




text \<open>A root with three visits and its only child, expanded by action 7.\<close>

definition ex_tree :: "nat store" where
  "ex_tree =
     [\<lparr>parent = None, parent_action = None, child_nodes = [(7, 1)], untried_actions = [],
       wins = 2, visits = 3\<rparr>,
      \<lparr>parent = Some 0, parent_action = Some 7, child_nodes = [], untried_actions = [],
       wins = 1, visits = 1\<rparr>]"

text \<open>The score of the final selection.\<close>

definition win_rate :: "'a store \<Rightarrow> ref \<Rightarrow> real" where
  "win_rate h c = real (wins (h ! c)) / real (visits (h ! c))"



text \<open>
  The path of parent links from a node to the root: the node, its parent, and so on up
  to the node whose parent is \<open>None\<close>.
\<close>

inductive parent_path :: "'a store \<Rightarrow> ref option \<Rightarrow> ref list \<Rightarrow> bool" where
  at_end: "parent_path h None []"
| step: "parent_path h (parent (h ! r)) ps \<Longrightarrow> parent_path h (Some r) (r # ps)"

text \<open>A chain of three levels, root 0, node 1, leaf 2, and a second child 3 of the root.\<close>

definition chain_tree :: "nat store" where
  "chain_tree =
     [\<lparr>parent = None, parent_action = None, child_nodes = [(1, 1), (2, 3)],
       untried_actions = [], wins = 2, visits = 4\<rparr>,
      \<lparr>parent = Some 0, parent_action = Some 1, child_nodes = [(3, 2)], untried_actions = [],
       wins = 2, visits = 3\<rparr>,
      \<lparr>parent = Some 1, parent_action = Some 3, child_nodes = [], untried_actions = [4],
       wins = 1, visits = 1\<rparr>,
      \<lparr>parent = Some 0, parent_action = Some 2, child_nodes = [], untried_actions = [],
       wins = 0, visits = 1\<rparr>]"

text \<open>What one round of \<^verbatim>\<open>backpropagate\<close> does to a node.\<close>

definition tally :: "bool \<Rightarrow> 'a MCTSNode \<Rightarrow> 'a MCTSNode" where
  "tally won n = n\<lparr>wins := wins n + (if won then 1 else 0), visits := visits n + 1\<rparr>"

text \<open>The invariant of the statistics: no node has more wins than visits.\<close>

definition stats_inv :: "'a store \<Rightarrow> bool" where
  "stats_inv h = (\<forall>n\<in>set h. wins n \<le> visits n)"


text \<open>
  A game of at most two moves. The state is a counter starting at 0; an action \<open>k\<close> adds
  \<open>1 + k\<close>; the game ends when the counter reaches 2; player 1 moves at even counters;
  player 1 wins at an even final counter, player 2 at an odd one.
\<close>

definition race_board :: "(nat, nat) Board" where
  "race_board =
     \<lparr>current_player = (\<lambda>s. case s of Some n \<Rightarrow> if even n then 1 else 2 | None \<Rightarrow> 1),
      legal_actions = (\<lambda>s. case s of Some n \<Rightarrow> if n < 2 then [0, 1] else [] | None \<Rightarrow> []),
      next_state = (\<lambda>s a. case s of Some n \<Rightarrow> (case a of Some k \<Rightarrow> Some (n + 1 + k) | None \<Rightarrow> None)
                                | None \<Rightarrow> None),
      is_ended = (\<lambda>s. case s of Some n \<Rightarrow> 2 \<le> n | None \<Rightarrow> True),
      points_values = (\<lambda>s. case s of
                         Some n \<Rightarrow> if 2 \<le> n
                                   then Some (if even n then [1 \<mapsto> 1, 2 \<mapsto> - 1]
                                              else [1 \<mapsto> - 1, 2 \<mapsto> 1])
                                   else None
                       | None \<Rightarrow> None)\<rparr>"

text \<open>The tree after the first iteration on that game when every random draw is 0.\<close>

definition race_tree1 :: "nat store" where
  "race_tree1 =
     [\<lparr>parent = None, parent_action = None, child_nodes = [(0, 1)], untried_actions = [1],
       wins = 1, visits = 1\<rparr>,
      \<lparr>parent = Some 0, parent_action = Some 0, child_nodes = [], untried_actions = [0, 1],
       wins = 1, visits = 1\<rparr>]"

text \<open>
  Playing a recorded history from a state: every entry \<open>(action, mover)\<close> must have a
  transition for its action and must name the player to move in the state the action
  leads to; the result is the state after the last entry.
\<close>

fun replay :: "('s, 'a) Board \<Rightarrow> 's option \<Rightarrow> ('a \<times> int) list \<Rightarrow> 's option option" where
  "replay board state [] = Some state"
| "replay board state ((a, mover) # rest) =
     (case next_state board state (Some a) of
        None \<Rightarrow> None
      | Some s \<Rightarrow>
          if mover = current_player board (Some s) then replay board (Some s) rest else None)"

text \<open>
  A game whose adapter signals a dead end: the only action leads from state 0 to state 1,
  and from state 1 \<^verbatim>\<open>next_state\<close> returns \<^verbatim>\<open>None\<close>. No state is terminal, so
  \<^verbatim>\<open>points_values\<close> returns \<^verbatim>\<open>None\<close> everywhere.
\<close>

definition dead_end_board :: "(nat, nat) Board" where
  "dead_end_board =
     \<lparr>current_player = (\<lambda>s. 1),
      legal_actions = (\<lambda>s. [0]),
      next_state = (\<lambda>s a. if s = Some 0 then Some 1 else None),
      is_ended = (\<lambda>s. False),
      points_values = (\<lambda>s. None)\<rparr>"

text \<open>The tree of that game after the first expansion.\<close>

definition dead_end_tree0 :: "nat store" where
  "dead_end_tree0 =
     [\<lparr>parent = None, parent_action = None, child_nodes = [(0, 1)], untried_actions = [],
       wins = 0, visits = 0\<rparr>,
      \<lparr>parent = Some 0, parent_action = Some 0, child_nodes = [], untried_actions = [0],
       wins = 0, visits = 0\<rparr>]"

text \<open>
  The shape of the search tree in the store: the root is node 0 and has no parent; every
  other node has a parent allocated before it; every entry of a node's dictionary of
  children refers to a node of the store whose parent link points back.
\<close>

definition tree_shape :: "'a store \<Rightarrow> bool" where
  "tree_shape h =
     (h \<noteq> [] \<and> parent (h ! 0) = None \<and>
      (\<forall>i<length h. 0 < i \<longrightarrow> (\<exists>p<i. parent (h ! i) = Some p)) \<and>
      (\<forall>i<length h. \<forall>x\<in>set (child_nodes (h ! i)).
          snd x < length h \<and> parent (h ! snd x) = Some i))"

text \<open>
  Every node that has a parent has been visited, and so has its parent. The weaker form
  leaves out one node: the child just created by the expansion, which is visited only
  by the backpropagation that follows.
\<close>

definition visited :: "'a store \<Rightarrow> bool" where
  "visited h =
     (\<forall>i<length h. \<forall>p. parent (h ! i) = Some p \<longrightarrow> 0 < visits (h ! i) \<and> 0 < visits (h ! p))"

definition visited_except :: "'a store \<Rightarrow> ref \<Rightarrow> bool" where
  "visited_except h n =
     (\<forall>i<length h. i \<noteq> n \<longrightarrow>
        (\<forall>p. parent (h ! i) = Some p \<longrightarrow> 0 < visits (h ! i) \<and> 0 < visits (h ! p)))"

text \<open>The invariant of the search loop, at the start of every iteration.\<close>

definition search_inv :: "'a store \<Rightarrow> bool" where
  "search_inv h = (tree_shape h \<and> visited h)"

text \<open>The errors that the selection policy and the final selection can raise by dividing by zero visits or taking the logarithm of zero visits, and the others.\<close>

definition benign :: "error \<Rightarrow> bool" where
  "benign e = (e \<noteq> ZeroDivisionError \<and> e \<noteq> ValueError)"

text \<open>
  A game of one move: from state 0 the only action leads to the terminal state 1, which
  player 1 wins. The tree after \<open>k\<close> iterations of the search has the root and its
  single child, each with \<open>k\<close> wins in \<open>k\<close> visits.
\<close>

definition one_move_board :: "(nat, nat) Board" where
  "one_move_board =
     \<lparr>current_player = (\<lambda>s. if s = Some 0 then 1 else 2),
      legal_actions = (\<lambda>s. if s = Some 0 then [0] else []),
      next_state = (\<lambda>s a. if s = Some 0 then Some 1 else None),
      is_ended = (\<lambda>s. s \<noteq> Some 0),
      points_values = (\<lambda>s. if s = Some 0 then None else Some [1 \<mapsto> 1, 2 \<mapsto> - 1])\<rparr>"

definition one_move_tree :: "nat \<Rightarrow> nat store" where
  "one_move_tree k =
     [\<lparr>parent = None, parent_action = None, child_nodes = [(0, 1)], untried_actions = [],
       wins = k, visits = k\<rparr>,
      \<lparr>parent = Some 0, parent_action = Some 0, child_nodes = [], untried_actions = [],
       wins = k, visits = k\<rparr>]"

section \<open>Properties of the table update\<close>

lemma update_replies_Nil:
  "update_replies t [] w = t"
  by (simp add: update_replies.simps)

lemma update_replies_discard:
  "m \<noteq> w \<Longrightarrow> update_replies t (hist @ [(a, m)]) w = update_replies t hist w"
  by (subst update_replies.simps) simp

lemma update_replies_single:
  "update_replies t [(a, w)] w = t"
  by (subst update_replies.simps) simp

lemma update_replies_pair:
  "update_replies t (hist @ [(pa, pm), (a, w)]) w = update_replies (t(pa \<mapsto> a)) hist w"
proof -
  have "butlast (hist @ [(pa, pm), (a, w)]) = hist @ [(pa, pm)]"
    by (simp add: butlast_append)
  then show ?thesis
    by (subst update_replies.simps) (simp add: Let_def)
qed

text \<open>
  C1 (as the code has it). The history is walked backward: an entry whose mover is not
  the winner is dropped; an entry whose mover is the winner takes the entry before it
  and records \<open>table[precedingAction] = action\<close>; the walk goes on until the history is
  used up. For the history \<open>[(a1,P1), (a2,P2), (a3,P1), (a4,P2)]\<close> with winner \<open>P2\<close>
  the update therefore writes \<open>table[a3] = a4\<close> and then \<open>table[a1] = a2\<close>, and
  leaves every other key as it was.
\<close>

theorem update_replies_four_ply:
  "update_replies t (hist @ [(a, m)]) w =
     (if m \<noteq> w then update_replies t hist w
      else case rev hist of [] \<Rightarrow> t
           | (pa, pm) # rest \<Rightarrow> update_replies (t(pa \<mapsto> a)) (rev rest) w)
   \<and> update_replies t [(a1, p1), (a2, p2), (a3, p1), (a4, p2)] p2
       = t(a3 \<mapsto> a4, a1 \<mapsto> a2)"
proof
  show "update_replies t (hist @ [(a, m)]) w =
     (if m \<noteq> w then update_replies t hist w
      else case rev hist of [] \<Rightarrow> t
           | (pa, pm) # rest \<Rightarrow> update_replies (t(pa \<mapsto> a)) (rev rest) w)"
  proof (cases "m = w")
    case False
    then show ?thesis by (simp add: update_replies_discard)
  next
    case True
    show ?thesis
    proof (cases hist rule: rev_cases)
      case Nil
      with True show ?thesis by (simp add: update_replies_single)
    next
      case (snoc ys y)
      obtain pa pm where y: "y = (pa, pm)" by (cases y)
      from True snoc y show ?thesis
        using update_replies_pair [of t ys pa pm a w] by simp
    qed
  qed
next
  have "update_replies t ([(a1, p1), (a2, p2)] @ [(a3, p1), (a4, p2)]) p2
        = update_replies (t(a3 \<mapsto> a4)) [(a1, p1), (a2, p2)] p2"
    by (rule update_replies_pair)
  moreover have "update_replies (t(a3 \<mapsto> a4)) ([] @ [(a1, p1), (a2, p2)]) p2
        = update_replies (t(a3 \<mapsto> a4, a1 \<mapsto> a2)) [] p2"
    by (rule update_replies_pair)
  ultimately show "update_replies t [(a1, p1), (a2, p2), (a3, p1), (a4, p2)] p2
        = t(a3 \<mapsto> a4, a1 \<mapsto> a2)"
    by (simp add: update_replies_Nil)
qed

text \<open>
  C1 (as the spec states it) fails: with actions 1, 2, 3, 4, players 1 and 2 and
  winner 2, the update of the empty table is not the table holding only \<open>3 \<mapsto> 4\<close>; it
  has an entry for action 1.
\<close>

theorem update_replies_four_ply_counterexample:
  "update_replies Map.empty [(1::nat, 1), (2, 2), (3, 1), (4, 2)] 2 \<noteq> [3 \<mapsto> 4]
   \<and> update_replies Map.empty [(1::nat, 1), (2, 2), (3, 1), (4, 2)] 2 1 = Some 2"
proof -
  have "update_replies Map.empty ([(1::nat, 1), (2, 2)] @ [(3, 1), (4, 2)]) 2
        = update_replies [3 \<mapsto> 4] [(1, 1), (2, 2)] 2"
    by (rule update_replies_pair)
  moreover have "update_replies [3 \<mapsto> 4] ([] @ [(1::nat, 1), (2, 2)]) 2
        = update_replies [3 \<mapsto> 4, 1 \<mapsto> 2] [] 2"
    by (rule update_replies_pair)
  ultimately have eq: "update_replies Map.empty [(1::nat, 1), (2, 2), (3, 1), (4, 2)] 2
        = [3 \<mapsto> 4, 1 \<mapsto> 2]"
    by (simp add: update_replies_Nil)
  have "[3 \<mapsto> 4, 1 \<mapsto> (2::nat)] \<noteq> [(3::nat) \<mapsto> (4::nat)]"
  proof
    assume "[3 \<mapsto> 4, 1 \<mapsto> (2::nat)] = [(3::nat) \<mapsto> (4::nat)]"
    then have "[3 \<mapsto> 4, 1 \<mapsto> (2::nat)] (1::nat) = [(3::nat) \<mapsto> (4::nat)] 1"
      by (rule arg_cong)
    then show False by simp
  qed
  with eq show ?thesis by simp
qed

section \<open>Unfolding the loops\<close>

lemma traverse_nodes_childless:
  "child_nodes (h ! node) = [] \<Longrightarrow> traverse_nodes h node board state bid = Some (Inr (node, state))"
  by (subst traverse_nodes.simps) simp

lemma backpropagate_None: "backpropagate h None won = Some h"
  by (subst backpropagate.simps) simp


lemma rollout_vanilla_ended:
  "is_ended board state \<Longrightarrow> rollout_vanilla board state g = Some (Inr (state, g))"
  by (subst rollout_vanilla.simps) simp

lemma playout_modified_ended:
  "is_ended board state \<Longrightarrow>
   playout_modified board t state action_used prev g = Some (Inr (state, action_used, g))"
  by (subst playout_modified.simps) simp

lemma backpropagate_step:
  "r < length h \<Longrightarrow>
   backpropagate h (Some r) won = backpropagate (h[r := tally won (h ! r)]) (parent (h ! r)) won"
  by (subst backpropagate.simps) (simp add: Let_def tally_def)

lemma parent_tally: "parent (tally won n) = parent n"
  by (simp add: tally_def)

lemma traverse_nodes_untried:
  "untried_actions (h ! node) \<noteq> [] \<Longrightarrow>
   traverse_nodes h node board state bid = Some (Inr (node, state))"
  by (subst traverse_nodes.simps) simp

lemma rollout_race_1: "rollout_vanilla race_board (Some 1) (\<lambda>i. 0) = Some (Inr (Some 2, \<lambda>i. 0))"
  apply (subst rollout_vanilla.simps)
  apply (simp add: race_board_def random_choice_def)
  apply (subst rollout_vanilla.simps)
  apply simp
  done

lemma expand_race_0:
  "expand_leaf [new_MCTSNode None None [0, 1]] 0 race_board (Some 0) (\<lambda>i. 0) =
     Inr ([\<lparr>parent = None, parent_action = None, child_nodes = [(0, 1)], untried_actions = [1],
            wins = 0, visits = 0\<rparr>,
           \<lparr>parent = Some 0, parent_action = Some 0, child_nodes = [], untried_actions = [0, 1],
            wins = 0, visits = 0\<rparr>], 1, Some 1, \<lambda>i. 0)"
  by (simp add: expand_leaf_def race_board_def random_choice_def new_MCTSNode_def Let_def)

lemma iteration_race_1:
  "iteration_vanilla race_board (Some 0) 1 [new_MCTSNode None None [0, 1]] (\<lambda>i. 0)
     = Some (Inr (race_tree1, \<lambda>i. 0))"
proof -
  have t: "traverse_nodes [new_MCTSNode None None [0, 1]] 0 race_board (Some 0) 1
           = Some (Inr (0, Some 0))"
    by (rule traverse_nodes_untried) (simp add: new_MCTSNode_def)
  have w: "is_win race_board (Some 2) 1 = Inr True"
    by (simp add: is_win_def race_board_def)
  have "iteration_vanilla race_board (Some 0) 1 [new_MCTSNode None None [0, 1]] (\<lambda>i. 0)
        = (case backpropagate
             [\<lparr>parent = None, parent_action = None, child_nodes = [(0, 1)],
               untried_actions = [1], wins = 0, visits = 0\<rparr>,
              \<lparr>parent = Some 0, parent_action = Some 0, child_nodes = [],
               untried_actions = [0, 1], wins = 0, visits = 0\<rparr>] (Some 1) True of
             None \<Rightarrow> None | Some h2 \<Rightarrow> Some (Inr (h2, \<lambda>i. 0)))"
    by (simp only: iteration_vanilla_def t expand_race_0 rollout_race_1 w
        option.case sum.case prod.case)
  then show ?thesis
    by (simp add: backpropagate_step backpropagate_None tally_def race_tree1_def)
qed

lemma loop_vanilla_first_error:
  "0 < n \<Longrightarrow> iteration_vanilla b s bid h g = Some (Inl e) \<Longrightarrow>
   loop_vanilla n b s bid h g = Some (Inl e)"
  by (cases n) simp_all


lemma rollout_modified_ended:
  "is_ended b s \<Longrightarrow>
   rollout_modified b s bid t g =
     (case is_win b s bid of Inl e \<Rightarrow> Some (Inl e)
      | Inr we_won \<Rightarrow> Some (Inr ((s, we_won), t, g)))"
  by (simp add: rollout_modified_def playout_modified_ended update_replies_Nil Let_def
      split: sum.splits)

section \<open>The history of the modified rollout\<close>

lemma playout_modified_history:
  assumes "playout_modified board t state action_used prev g = Some res"
  shows "res = Inr (state', history, g') \<Longrightarrow>
         \<exists>new. history = action_used @ new \<and> replay board state new = Some state'"
proof (induct arbitrary: state' history g' rule: playout_modified.raw_induct [OF _ assms])
  case (1 pm board t state action_used prev g res)
  show ?case
  proof (cases "is_ended board state")
    case True
    with "1.hyps"(2) "1.prems" show ?thesis by simp
  next
    case False
    show ?thesis
    proof (cases "choose_action board t state prev g")
      case (Inl e)
      with False "1.hyps"(2) "1.prems" show ?thesis by simp
    next
      case (Inr p)
      obtain a g1 where p: "p = (a, g1)" by (cases p)
      show ?thesis
      proof (cases "next_state board state (Some a)")
        case None
        with False Inr p "1.hyps"(2) "1.prems" show ?thesis by simp
      next
        case (Some s)
        with False Inr p "1.hyps"(2)
        have run: "pm board t (Some s) (action_used @ [(a, current_player board (Some s))])
                     (Some a) g1 = Some res"
          by simp
        from "1.hyps"(1) [OF run "1.prems"]
        obtain new where new: "history = (action_used @ [(a, current_player board (Some s))]) @ new"
          "replay board (Some s) new = Some state'"
          by blast
        then have "history = action_used @ ((a, current_player board (Some s)) # new)"
          and "replay board state ((a, current_player board (Some s)) # new) = Some state'"
          using Some by simp_all
        then show ?thesis by blast
      qed
    qed
  qed
qed

text \<open>
  C2. In the modified rollout every entry the playout appends to the history is the
  action played together with the current player of the state reached by that action,
  that is the player to move next: the entries appended replay from the starting state,
  each mover being the current player after its action, and lead to the state the
  playout returns.
\<close>

theorem history_records_next_player:
  assumes "playout_modified board t state action_used prev g = Some (Inr (state', history, g'))"
  shows "\<exists>new. history = action_used @ new \<and> replay board state new = Some state'"
  using playout_modified_history [OF assms refl] .

lemma playout_race_0:
  "playout_modified race_board Map.empty (Some 0) [] None (\<lambda>i. 0)
     = Some (Inr (Some 2, [(0, 2), (0, 1)], \<lambda>i. 0))"
  apply (subst playout_modified.simps)
  apply (simp add: race_board_def choose_action_def random_choice_def)
  apply (subst playout_modified.simps)
  apply (simp add: choose_action_def random_choice_def)
  apply (subst playout_modified.simps)
  apply simp
  done

text \<open>
  On the two-move game with every draw 0, player 1 plays action 0 from the counter 0 and
  the entry recorded is \<open>(0, 2)\<close>: player 2 moves next.
\<close>

theorem history_records_next_player_witness:
  "playout_modified race_board Map.empty (Some 0) [] None (\<lambda>i. 0)
     = Some (Inr (Some 2, [(0, 2), (0, 1)], \<lambda>i. 0))
   \<and> replay race_board (Some 0) [(0, 2), (0, 1)] = Some (Some 2)
   \<and> current_player race_board (Some 0) = 1
   \<and> next_state race_board (Some 0) (Some 0) = Some 1
   \<and> current_player race_board (Some 1) = 2"
proof -
  from history_records_next_player [OF playout_race_0]
  have "replay race_board (Some 0) [(0, 2), (0, 1)] = Some (Some 2)"
    by simp
  moreover have "current_player race_board (Some 0) = 1"
    "next_state race_board (Some 0) (Some 0) = Some 1"
    "current_player race_board (Some 1) = 2"
    by (simp_all add: race_board_def)
  ultimately show ?thesis
    using playout_race_0 by simp
qed

section \<open>A dead end in the vanilla rollout\<close>

lemma rollout_vanilla_dead_end:
  assumes "\<not> is_ended board state"
    and "random_choice (legal_actions board state) g = Inr (a, g')"
    and "next_state board state (Some a) = None"
  shows "rollout_vanilla board state g = Some (Inr (state, g'))"
  using assms by (subst rollout_vanilla.simps) simp

lemma traverse_dead_end_root:
  "traverse_nodes [new_MCTSNode None None [0]] 0 board (Some 0) 1 = Some (Inr (0, Some 0))"
  by (rule traverse_nodes_untried) (simp add: new_MCTSNode_def)

lemma expand_dead_end_root:
  "expand_leaf [new_MCTSNode None None [0]] 0 dead_end_board (Some 0) (\<lambda>i. 0)
     = Inr (dead_end_tree0, 1, Some 1, \<lambda>i. 0)"
  by (simp add: expand_leaf_def dead_end_board_def random_choice_def new_MCTSNode_def Let_def
      dead_end_tree0_def)

lemma rollout_dead_end_board:
  "rollout_vanilla dead_end_board (Some 1) (\<lambda>i. 0) = Some (Inr (Some 1, \<lambda>i. 0))"
  by (rule rollout_vanilla_dead_end [where a=0])
     (simp_all add: dead_end_board_def random_choice_def)

text \<open>
  C3. When \<^verbatim>\<open>next_state\<close> returns \<^verbatim>\<open>None\<close> during a vanilla rollout the playout
  loop stops and returns the last reached state; the property the spec states is that this state
  is then scored to a win indicator without any error and that the other iterations of
  the search loop are not affected. The code does not achieve this. The state the rollout
  returns is not terminal, against the docstring of \<^verbatim>\<open>rollout\<close>; on a board whose
  \<^verbatim>\<open>points_values\<close> has no outcome for a non-terminal state the assertion of
  \<^verbatim>\<open>is_win\<close> fails, and \<^verbatim>\<open>think\<close> ends with that error in its first iteration. The
  theorem evaluates the code on such a board: from state 1 the only action has no
  successor.
\<close>

theorem dead_end_assertion_failure:
  "\<not> is_ended dead_end_board (Some 1)
   \<and> next_state dead_end_board (Some 1) (Some 0) = None
   \<and> rollout_vanilla dead_end_board (Some 1) (\<lambda>i. 0) = Some (Inr (Some 1, \<lambda>i. 0))
   \<and> points_values dead_end_board (Some 1) = None
   \<and> is_win dead_end_board (Some 1) 1 = Inl AssertionError
   \<and> think_vanilla dead_end_board (Some 0) (\<lambda>i. 0) = Some (Inl AssertionError)"
proof -
  have w: "is_win dead_end_board (Some 1) 1 = Inl AssertionError"
    by (simp add: is_win_def dead_end_board_def)
  have root: "legal_actions dead_end_board (Some 0) = [0]"
    and bid: "current_player dead_end_board (Some 0) = 1"
    by (simp_all add: dead_end_board_def)
  have "iteration_vanilla dead_end_board (Some 0) 1 [new_MCTSNode None None [0]] (\<lambda>i. 0)
        = Some (Inl AssertionError)"
    by (simp only: iteration_vanilla_def traverse_dead_end_root expand_dead_end_root
        rollout_dead_end_board w option.case sum.case prod.case)
  then have "loop_vanilla num_nodes_vanilla dead_end_board (Some 0) 1
               [new_MCTSNode None None [0]] (\<lambda>i. 0) = Some (Inl AssertionError)"
    by (rule loop_vanilla_first_error [rotated]) (simp add: num_nodes_vanilla_def)
  then have "think_vanilla dead_end_board (Some 0) (\<lambda>i. 0) = Some (Inl AssertionError)"
    by (simp only: think_vanilla_def Let_def root bid option.case sum.case)
  moreover have "\<not> is_ended dead_end_board (Some 1)"
    "next_state dead_end_board (Some 1) (Some 0) = None"
    by (simp_all add: dead_end_board_def)
  moreover have "points_values dead_end_board (Some 1) = None"
    by (simp add: dead_end_board_def)
  ultimately show ?thesis
    using w rollout_dead_end_board by simp
qed

section \<open>A root without children\<close>

















section \<open>Ties between siblings\<close>









section \<open>Backpropagation along the path to the root\<close>

lemma parent_path_det:
  "parent_path h n ps \<Longrightarrow> parent_path h n qs \<Longrightarrow> ps = qs"
proof (induction arbitrary: qs rule: parent_path.induct)
  case (at_end h)
  then show ?case by (auto elim: parent_path.cases)
next
  case (step h r ps)
  from step.prems obtain qs' where "qs = r # qs'" "parent_path h (parent (h ! r)) qs'"
    by (auto elim: parent_path.cases)
  with step.IH show ?case by simp
qed

lemma parent_path_suffix:
  "parent_path h n ps \<Longrightarrow> i \<in> set ps \<Longrightarrow>
   \<exists>qs. parent_path h (Some i) qs \<and> length qs \<le> length ps"
proof (induction rule: parent_path.induct)
  case (at_end h)
  then show ?case by simp
next
  case (step h r ps)
  show ?case
  proof (cases "i = r")
    case True
    from step.hyps have "parent_path h (Some r) (r # ps)"
      by (rule parent_path.step)
    with True show ?thesis by auto
  next
    case False
    with step.prems have "i \<in> set ps" by simp
    from step.IH [OF this] show ?thesis by auto
  qed
qed

lemma parent_path_distinct:
  "parent_path h n ps \<Longrightarrow> distinct ps"
proof (induction rule: parent_path.induct)
  case (at_end h)
  then show ?case by simp
next
  case (step h r ps)
  have "r \<notin> set ps"
  proof
    assume "r \<in> set ps"
    from parent_path_suffix [OF step.hyps this]
    obtain qs where qs: "parent_path h (Some r) qs" "length qs \<le> length ps" by blast
    from step.hyps have "parent_path h (Some r) (r # ps)"
      by (rule parent_path.step)
    with qs(1) have "qs = r # ps" by (rule parent_path_det)
    with qs(2) show False by simp
  qed
  with step.IH show ?case by simp
qed

lemma parent_path_same_parents:
  "parent_path h n ps \<Longrightarrow> (\<And>i. parent (h' ! i) = parent (h ! i)) \<Longrightarrow> parent_path h' n ps"
proof (induction rule: parent_path.induct)
  case (at_end h)
  show ?case by (rule parent_path.at_end)
next
  case (step h r ps)
  from step.IH [OF step.prems] have "parent_path h' (parent (h ! r)) ps" .
  with step.prems [of r] have "parent_path h' (parent (h' ! r)) ps" by simp
  then show ?case by (rule parent_path.step)
qed

lemma backpropagate_path:
  "parent_path h n ps \<Longrightarrow> \<forall>r\<in>set ps. r < length h \<Longrightarrow>
   \<exists>h'. backpropagate h n won = Some h' \<and> length h' = length h \<and>
     (\<forall>i<length h. h' ! i = (if i \<in> set ps then tally won (h ! i) else h ! i))"
proof (induction "length ps" arbitrary: h n ps)
  case 0
  then have "ps = []" by simp
  with "0.prems"(1) have "n = None" by (auto elim: parent_path.cases)
  then show ?case using \<open>ps = []\<close> by (simp add: backpropagate_None)
next
  case (Suc k)
  from Suc.hyps(2) Suc.prems(1) obtain r ps' where n: "n = Some r" and ps: "ps = r # ps'"
    and tl: "parent_path h (parent (h ! r)) ps'"
    by (auto elim: parent_path.cases)
  from Suc.prems(2) ps have r: "r < length h" and rs: "\<forall>i\<in>set ps'. i < length h"
    by simp_all
  let ?h2 = "h[r := tally won (h ! r)]"
  have same: "\<And>i. parent (?h2 ! i) = parent (h ! i)"
  proof -
    fix i show "parent (?h2 ! i) = parent (h ! i)"
      using r by (cases "i = r") (simp_all add: parent_tally)
  qed
  from parent_path_same_parents [OF tl same] have tl2: "parent_path ?h2 (parent (h ! r)) ps'" .
  from Suc.hyps(2) ps have k: "k = length ps'" by simp
  from rs have rs2: "\<forall>i\<in>set ps'. i < length ?h2" by simp
  from Suc.hyps(1) [OF k tl2 rs2]
  obtain h' where h': "backpropagate ?h2 (parent (h ! r)) won = Some h'"
    "length h' = length ?h2"
    "\<forall>i<length ?h2. h' ! i = (if i \<in> set ps' then tally won (?h2 ! i) else ?h2 ! i)"
    by blast
  from Suc.prems(1) have "distinct ps" by (rule parent_path_distinct)
  with ps have notin: "r \<notin> set ps'" by simp
  have "\<forall>i<length h. h' ! i = (if i \<in> set ps then tally won (h ! i) else h ! i)"
  proof (intro allI impI)
    fix i assume i: "i < length h"
    show "h' ! i = (if i \<in> set ps then tally won (h ! i) else h ! i)"
    proof (cases "i = r")
      case True
      with h'(3) i notin ps show ?thesis by simp
    next
      case False
      with h'(3) i ps show ?thesis by simp
    qed
  qed
  with h'(1,2) n r show ?case
    by (simp add: backpropagate_step)
qed


lemma parent_path_ends:
  "parent_path h n ps \<Longrightarrow> n = Some r \<Longrightarrow> ps \<noteq> [] \<and> hd ps = r \<and> parent (h ! last ps) = None"
proof (induction arbitrary: r rule: parent_path.induct)
  case (at_end h)
  then show ?case by simp
next
  case (step h q ps)
  show ?case
  proof (cases "parent (h ! q)")
    case None
    with step.hyps have "ps = []" by (auto elim: parent_path.cases)
    with None step.prems show ?thesis by simp
  next
    case (Some p)
    from step.IH [OF Some] step.prems show ?thesis by simp
  qed
qed

text \<open>
  C7. One call of \<^verbatim>\<open>backpropagate(leaf, won)\<close> on a store whose parent links lead from
  the leaf to the root returns, and in the store it leaves every node on the path, from
  the leaf up to and including the root, has \<open>visits\<close> increased by exactly 1 and
  \<open>wins\<close> increased by exactly 1 if \<open>won\<close> holds and by 0 otherwise, with the same
  \<open>won\<close> at every node; every other node, and every other field, is unchanged.
\<close>

theorem backpropagate_path_counts:
  assumes "parent_path h (Some leaf) ps" and "\<forall>r\<in>set ps. r < length h"
  shows "\<exists>h'. backpropagate h (Some leaf) won = Some h' \<and> length h' = length h \<and>
           hd ps = leaf \<and> parent (h ! last ps) = None \<and>
           (\<forall>i<length h. h' ! i =
              (if i \<in> set ps
               then (h ! i)\<lparr>wins := wins (h ! i) + (if won then 1 else 0),
                             visits := visits (h ! i) + 1\<rparr>
               else h ! i))"
proof -
  from backpropagate_path [OF assms, of won]
  obtain h' where "backpropagate h (Some leaf) won = Some h'" "length h' = length h"
    "\<forall>i<length h. h' ! i = (if i \<in> set ps then tally won (h ! i) else h ! i)"
    by blast
  moreover from parent_path_ends [OF assms(1) refl]
  have "hd ps = leaf" "parent (h ! last ps) = None" by simp_all
  ultimately show ?thesis
    by (simp add: tally_def)
qed

text \<open>
  On the chain of three levels a won simulation from the leaf adds one visit and one win
  to nodes 2, 1 and 0 and leaves node 3 as it was.
\<close>

theorem backpropagate_path_counts_witness:
  "parent_path chain_tree (Some 2) [2, 1, 0] \<and> length chain_tree = 4 \<and>
   (\<exists>h'. backpropagate chain_tree (Some 2) True = Some h' \<and>
      visits (h' ! 2) = 2 \<and> wins (h' ! 2) = 2 \<and>
      visits (h' ! 1) = 4 \<and> wins (h' ! 1) = 3 \<and>
      visits (h' ! 0) = 5 \<and> wins (h' ! 0) = 3 \<and>
      h' ! 3 = chain_tree ! 3)"
proof -
  have "parent_path chain_tree (parent (chain_tree ! 0)) []"
    by (simp add: chain_tree_def parent_path.at_end)
  then have "parent_path chain_tree (Some 0) [0]"
    by (rule parent_path.step)
  then have "parent_path chain_tree (parent (chain_tree ! 1)) [0]"
    by (simp add: chain_tree_def)
  then have "parent_path chain_tree (Some 1) [1, 0]"
    by (rule parent_path.step)
  then have "parent_path chain_tree (parent (chain_tree ! 2)) [1, 0]"
    by (simp add: chain_tree_def)
  then have p: "parent_path chain_tree (Some 2) [2, 1, 0]"
    by (rule parent_path.step)
  have l: "length chain_tree = 4"
    by (simp add: chain_tree_def)
  then have b: "\<forall>r\<in>set [2, 1, 0]. r < length chain_tree"
    by simp
  from backpropagate_path_counts [OF p b, of True]
  obtain h' where h': "backpropagate chain_tree (Some 2) True = Some h'"
    and nth: "\<forall>i<length chain_tree. h' ! i =
              (if i \<in> set [2, 1, 0]
               then (chain_tree ! i)\<lparr>wins := wins (chain_tree ! i) + (if True then 1 else 0),
                             visits := visits (chain_tree ! i) + 1\<rparr>
               else chain_tree ! i)"
    by blast
  from nth l have "h' ! 0 = (chain_tree ! 0)\<lparr>wins := wins (chain_tree ! 0) + 1,
        visits := visits (chain_tree ! 0) + 1\<rparr>"
    and "h' ! 1 = (chain_tree ! 1)\<lparr>wins := wins (chain_tree ! 1) + 1,
        visits := visits (chain_tree ! 1) + 1\<rparr>"
    and "h' ! 2 = (chain_tree ! 2)\<lparr>wins := wins (chain_tree ! 2) + 1,
        visits := visits (chain_tree ! 2) + 1\<rparr>"
    and "h' ! 3 = chain_tree ! 3"
    by simp_all
  then have "visits (h' ! 2) = 2 \<and> wins (h' ! 2) = 2 \<and>
      visits (h' ! 1) = 4 \<and> wins (h' ! 1) = 3 \<and>
      visits (h' ! 0) = 5 \<and> wins (h' ! 0) = 3 \<and>
      h' ! 3 = chain_tree ! 3"
    by (simp add: chain_tree_def)
  with h' p l show ?thesis by blast
qed

section \<open>The value of the selection policy\<close>

text \<open>
  C8. For a node with at least one visit whose parent has at least one visit,
  \<^verbatim>\<open>ucb\<close> returns the win rate \<open>wins / visits\<close>, replaced by one minus the win rate
  when \<open>is_opponent\<close> holds, plus \<open>2 * sqrt (ln (parent visits) / visits)\<close>; nothing
  clamps the sum.
\<close>

theorem ucb_formula:
  assumes "0 < visits (h ! node)" and "parent (h ! node) = Some p" and "0 < visits (h ! p)"
  shows "ucb h node is_opponent =
     Inr ((if is_opponent then 1 - real (wins (h ! node)) / real (visits (h ! node))
           else real (wins (h ! node)) / real (visits (h ! node)))
          + 2 * sqrt (ln (real (visits (h ! p))) / real (visits (h ! node))))"
  using assms by (simp add: ucb_def explore_faction_def Let_def)

text \<open>
  On the fixture the child has one win in one visit and the root three visits: the value
  is \<open>1 + 2 * sqrt (ln 3)\<close> for the searching side, which is above 1, and
  \<open>2 * sqrt (ln 3)\<close> for the opponent.
\<close>

theorem ucb_formula_witness:
  "0 < visits (ex_tree ! 1) \<and> parent (ex_tree ! 1) = Some 0 \<and> 0 < visits (ex_tree ! 0)
   \<and> ucb ex_tree 1 False = Inr (1 + 2 * sqrt (ln 3))
   \<and> ucb ex_tree 1 True = Inr (2 * sqrt (ln 3))
   \<and> (1::real) < 1 + 2 * sqrt (ln 3)"
proof -
  have a: "0 < visits (ex_tree ! 1)" and b: "parent (ex_tree ! 1) = Some 0"
    and c: "0 < visits (ex_tree ! 0)"
    by (simp_all add: ex_tree_def)
  have "(0::real) < ln 3" by simp
  then have "(0::real) < sqrt (ln 3)" by simp
  then show ?thesis
    using a b c ucb_formula [OF a b c, of False] ucb_formula [OF a b c, of True]
    by (simp add: ex_tree_def)
qed

section \<open>The invariant of the search loop\<close>

lemma visited_imp_except: "visited h \<Longrightarrow> visited_except h n"
  by (simp add: visited_def visited_except_def)

lemma set_alist_update:
  "set (AList.update k v al) \<subseteq> insert (k, v) (set al)"
  by (induction al) auto

lemma tree_shape_root: "tree_shape [new_MCTSNode None None acts]"
  by (simp add: tree_shape_def new_MCTSNode_def)

lemma visited_root: "visited [new_MCTSNode None None acts]"
  by (simp add: visited_def new_MCTSNode_def)

lemma tree_shape_child:
  "tree_shape h \<Longrightarrow> i < length h \<Longrightarrow> x \<in> set (child_nodes (h ! i)) \<Longrightarrow>
   snd x < length h \<and> parent (h ! snd x) = Some i"
  unfolding tree_shape_def by blast

lemma tree_shape_parent_less:
  "tree_shape h \<Longrightarrow> i < length h \<Longrightarrow> parent (h ! i) = Some p \<Longrightarrow> p < i"
  by (cases "i = 0") (auto simp: tree_shape_def)

lemma tree_shape_path:
  "tree_shape h \<Longrightarrow> r < length h \<Longrightarrow>
   \<exists>ps. parent_path h (Some r) ps \<and> (\<forall>q\<in>set ps. q \<le> r) \<and> r \<in> set ps \<and> 0 \<in> set ps \<and>
        (\<forall>p. parent (h ! r) = Some p \<longrightarrow> p \<in> set ps)"
proof (induction r rule: less_induct)
  case (less r)
  show ?case
  proof (cases "r = 0")
    case True
    with less.prems have "parent (h ! r) = None" by (simp add: tree_shape_def)
    then have "parent_path h (Some r) [r]"
      using parent_path.step [of h r "[]"] by (simp add: parent_path.at_end)
    with True \<open>parent (h ! r) = None\<close> show ?thesis
      by (intro exI [of _ "[r]"]) simp
  next
    case False
    with less.prems obtain p where p: "p < r" "parent (h ! r) = Some p"
      by (auto simp: tree_shape_def)
    with less.prems have "p < length h" by simp
    from less.IH [OF p(1) less.prems(1) this]
    obtain ps where ps: "parent_path h (Some p) ps" "\<forall>q\<in>set ps. q \<le> p" "p \<in> set ps"
      "0 \<in> set ps"
      by blast
    from ps(1) p(2) have "parent_path h (Some r) (r # ps)"
      using parent_path.step [of h r ps] by simp
    with ps p show ?thesis
      by (intro exI [of _ "r # ps"]) auto
  qed
qed

lemma tally_fields:
  "parent (tally won n) = parent n" "child_nodes (tally won n) = child_nodes n"
  "untried_actions (tally won n) = untried_actions n" "parent_action (tally won n) = parent_action n"
  "visits (tally won n) = visits n + 1"
  by (simp_all add: tally_def)

lemma tree_shape_same_links:
  assumes "tree_shape h" and "length h' = length h"
    and "\<And>i. i < length h \<Longrightarrow> parent (h' ! i) = parent (h ! i)"
    and "\<And>i. i < length h \<Longrightarrow> child_nodes (h' ! i) = child_nodes (h ! i)"
  shows "tree_shape h'"
  using assms unfolding tree_shape_def
  by (metis length_greater_0_conv)

lemma backpropagate_restores:
  assumes shape: "tree_shape h" and ve: "visited_except h r" and r: "r < length h"
  shows "\<exists>h'. backpropagate h (Some r) won = Some h' \<and> length h' = length h \<and>
           tree_shape h' \<and> visited h' \<and> visits (h' ! 0) = visits (h ! 0) + 1"
proof -
  from tree_shape_path [OF shape r]
  obtain ps where ps: "parent_path h (Some r) ps" "\<forall>q\<in>set ps. q \<le> r" "r \<in> set ps"
    "0 \<in> set ps" "\<forall>p. parent (h ! r) = Some p \<longrightarrow> p \<in> set ps"
    by blast
  from ps(2) r have bound: "\<forall>q\<in>set ps. q < length h" by auto
  from backpropagate_path [OF ps(1) bound, of won]
  obtain h' where h': "backpropagate h (Some r) won = Some h'" "length h' = length h"
    and nth: "\<forall>i<length h. h' ! i = (if i \<in> set ps then tally won (h ! i) else h ! i)"
    by blast
  have par: "\<And>i. i < length h \<Longrightarrow> parent (h' ! i) = parent (h ! i)"
    using nth by (simp add: tally_fields)
  have chi: "\<And>i. i < length h \<Longrightarrow> child_nodes (h' ! i) = child_nodes (h ! i)"
    using nth by (simp add: tally_fields)
  have vis: "\<And>i. i < length h \<Longrightarrow>
      visits (h' ! i) = visits (h ! i) + (if i \<in> set ps then 1 else 0)"
    using nth by (simp add: tally_fields)
  from shape h'(2) par chi have shape': "tree_shape h'"
    by (rule tree_shape_same_links)
  have "visited h'"
    unfolding visited_def
  proof (intro allI impI)
    fix i p assume i: "i < length h'" and p: "parent (h' ! i) = Some p"
    from i h'(2) have il: "i < length h" by simp
    with p par have p0: "parent (h ! i) = Some p" by simp
    from tree_shape_parent_less [OF shape il p0] il have pl: "p < length h" by simp
    show "0 < visits (h' ! i) \<and> 0 < visits (h' ! p)"
    proof (cases "i = r")
      case True
      with ps(3,5) p0 have "i \<in> set ps" "p \<in> set ps" by auto
      with vis [OF il] vis [OF pl] show ?thesis by simp
    next
      case False
      with ve il p0 have "0 < visits (h ! i) \<and> 0 < visits (h ! p)"
        by (simp add: visited_except_def)
      with vis [OF il] vis [OF pl] show ?thesis by simp
    qed
  qed
  moreover from shape have "0 < length h" by (simp add: tree_shape_def)
  with vis [of 0] ps(4) have "visits (h' ! 0) = visits (h ! 0) + 1" by simp
  ultimately show ?thesis
    using h' shape' by blast
qed

lemma expand_leaf_cases:
  assumes "expand_leaf h node board state g = Inr (h1, node1, state1, g1)" and "node < length h"
  shows "(h1 = h \<and> node1 = node \<and> state1 = state \<and> g1 = g) \<or>
         (\<exists>a n'. node1 = length h \<and>
            n' = (h ! node)\<lparr>untried_actions := remove1 a (untried_actions (h ! node)),
                              child_nodes := AList.update a (length h) (child_nodes (h ! node))\<rparr> \<and>
            h1 = h[node := n'] @
                   [new_MCTSNode (Some node) (Some a) (legal_actions board state1)])"
proof (cases "\<not> is_ended board state \<and> length (untried_actions (h ! node)) > 0")
  case False
  with assms show ?thesis by (auto simp: expand_leaf_def)
next
  case True
  then obtain a g' where c: "random_choice (untried_actions (h ! node)) g = Inr (a, g')"
    by (auto simp: random_choice_def)
  from assms True c show ?thesis
    by (auto simp: expand_leaf_def Let_def list_update_append1 nth_append)
qed

lemma expand_leaf_no_error:
  "expand_leaf h node board state g \<noteq> Inl ZeroDivisionError \<and>
   expand_leaf h node board state g \<noteq> Inl ValueError"
  by (auto simp: expand_leaf_def random_choice_def Let_def split: sum.splits)

lemma expand_leaf_inv:
  assumes ex: "expand_leaf h node board state g = Inr (h1, node1, state1, g1)"
    and node: "node < length h" and shape: "tree_shape h" and vis: "visited h"
  shows "tree_shape h1 \<and> visited_except h1 node1 \<and> node1 < length h1 \<and>
         visits (h1 ! 0) = visits (h ! 0)"
proof -
  from expand_leaf_cases [OF ex node] show ?thesis
  proof
    assume "h1 = h \<and> node1 = node \<and> state1 = state \<and> g1 = g"
    with node shape vis show ?thesis by (simp add: visited_imp_except)
  next
    assume "\<exists>a n'. node1 = length h \<and>
            n' = (h ! node)\<lparr>untried_actions := remove1 a (untried_actions (h ! node)),
                              child_nodes := AList.update a (length h) (child_nodes (h ! node))\<rparr> \<and>
            h1 = h[node := n'] @
                   [new_MCTSNode (Some node) (Some a) (legal_actions board state1)]"
    then obtain a n' where n1: "node1 = length h"
      and n': "n' = (h ! node)\<lparr>untried_actions := remove1 a (untried_actions (h ! node)),
                              child_nodes := AList.update a (length h) (child_nodes (h ! node))\<rparr>"
      and h1: "h1 = h[node := n'] @
                   [new_MCTSNode (Some node) (Some a) (legal_actions board state1)]"
      by blast
    have len: "length h1 = Suc (length h)" by (simp add: h1)
    have old_par: "\<And>i. i < length h \<Longrightarrow> parent (h1 ! i) = parent (h ! i)"
    proof -
      fix i assume "i < length h"
      then show "parent (h1 ! i) = parent (h ! i)"
        by (cases "i = node") (simp_all add: h1 n' nth_append)
    qed
    have old_vis: "\<And>i. i < length h \<Longrightarrow> visits (h1 ! i) = visits (h ! i)"
    proof -
      fix i assume "i < length h"
      then show "visits (h1 ! i) = visits (h ! i)"
        by (cases "i = node") (simp_all add: h1 n' nth_append)
    qed
    have new_par: "parent (h1 ! length h) = Some node"
      by (simp add: h1 nth_append new_MCTSNode_def)
    have new_chi: "child_nodes (h1 ! length h) = []"
      by (simp add: h1 nth_append new_MCTSNode_def)
    have old_chi: "\<And>i. i < length h \<Longrightarrow>
        set (child_nodes (h1 ! i)) \<subseteq>
          (if i = node then insert (a, length h) (set (child_nodes (h ! i)))
           else set (child_nodes (h ! i)))"
    proof -
      fix i assume "i < length h"
      then show "set (child_nodes (h1 ! i)) \<subseteq>
          (if i = node then insert (a, length h) (set (child_nodes (h ! i)))
           else set (child_nodes (h ! i)))"
        by (cases "i = node") (simp_all add: h1 n' nth_append set_alist_update)
    qed
    from shape have pos: "0 < length h" by (simp add: tree_shape_def)
    have "tree_shape h1"
      unfolding tree_shape_def
    proof (intro conjI allI impI ballI)
      show "h1 \<noteq> []" by (simp add: h1)
      from shape pos show "parent (h1 ! 0) = None"
        by (simp add: old_par tree_shape_def)
    next
      fix i assume i: "i < length h1" and i0: "0 < i"
      show "\<exists>p<i. parent (h1 ! i) = Some p"
      proof (cases "i < length h")
        case True
        with shape i0 show ?thesis by (simp add: old_par tree_shape_def)
      next
        case False
        with i len have "i = length h" by simp
        with new_par node show ?thesis by simp
      qed
    next
      fix i x assume i: "i < length h1" and x: "x \<in> set (child_nodes (h1 ! i))"
      have "snd x < length h1 \<and> parent (h1 ! snd x) = Some i"
      proof (cases "i < length h")
        case False
        with i len have "i = length h" by simp
        with x new_chi show ?thesis by simp
      next
        case True
        show ?thesis
        proof (cases "x \<in> set (child_nodes (h ! i))")
          case True
          with shape \<open>i < length h\<close> have "snd x < length h" "parent (h ! snd x) = Some i"
            by (simp_all add: tree_shape_def)
          with len show ?thesis by (simp add: old_par)
        next
          case False
          with old_chi [OF \<open>i < length h\<close>] x have "i = node" "x = (a, length h)"
            by (auto split: if_splits)
          with new_par len show ?thesis by simp
        qed
      qed
      then show "snd x < length h1" and "parent (h1 ! snd x) = Some i" by simp_all
    qed
    moreover have "visited_except h1 node1"
      unfolding visited_except_def
    proof (intro allI impI)
      fix i p assume i: "i < length h1" and ne: "i \<noteq> node1" and p: "parent (h1 ! i) = Some p"
      from i ne n1 len have il: "i < length h" by simp
      with p have p0: "parent (h ! i) = Some p" by (simp add: old_par)
      from tree_shape_parent_less [OF shape il p0] il have pl: "p < length h" by simp
      from vis il p0 have "0 < visits (h ! i) \<and> 0 < visits (h ! p)"
        by (simp add: visited_def)
      with il pl show "0 < visits (h1 ! i) \<and> 0 < visits (h1 ! p)"
        by (simp add: old_vis)
    qed
    moreover from n1 len have "node1 < length h1" by simp
    moreover from pos have "visits (h1 ! 0) = visits (h ! 0)" by (rule old_vis)
    ultimately show ?thesis by blast
  qed
qed

lemma ucb_defined:
  "0 < visits (h ! c) \<Longrightarrow> parent (h ! c) = Some p \<Longrightarrow> 0 < visits (h ! p) \<Longrightarrow>
   \<exists>v. ucb h c opp = Inr v"
  by (simp add: ucb_def Let_def)

lemma traverse_best_defined:
  "\<forall>x\<in>set cs. \<exists>v. ucb h (snd x) opp = Inr v \<Longrightarrow>
   \<exists>v r. traverse_best h opp best cs = Inr (v, r) \<and>
          (r = snd best \<or> (\<exists>x\<in>set cs. r = Some (snd x)))"
proof (induction cs arbitrary: best)
  case Nil
  show ?case by (cases best) simp
next
  case (Cons x rest)
  obtain a c where x: "x = (a, c)" by (cases x)
  from Cons.prems x obtain v0 where v0: "ucb h c opp = Inr v0" by auto
  define best' where "best' = (if v0 \<ge> fst best then (v0, Some c) else best)"
  from Cons.prems have "\<forall>x\<in>set rest. \<exists>v. ucb h (snd x) opp = Inr v" by simp
  from Cons.IH [OF this, of best']
  obtain v r where run: "traverse_best h opp best' rest = Inr (v, r)"
    and r: "r = snd best' \<or> (\<exists>x\<in>set rest. r = Some (snd x))"
    by blast
  from run x v0 have "traverse_best h opp best (x # rest) = Inr (v, r)"
    by (simp add: best'_def)
  moreover from r x have "r = snd best \<or> (\<exists>y\<in>set (x # rest). r = Some (snd y))"
    by (auto simp: best'_def split: if_splits)
  ultimately show ?case by blast
qed

lemma traverse_nodes_inv:
  assumes run: "traverse_nodes h node board state bid = Some res"
  shows "tree_shape h \<Longrightarrow> visited h \<Longrightarrow> node < length h \<Longrightarrow>
         \<exists>node' state'. res = Inr (node', state') \<and> node' < length h"
proof (induct rule: traverse_nodes.raw_induct [OF _ run])
  case (1 tn h node board state bid res)
  show ?case
  proof (cases "length (untried_actions (h ! node)) > 0")
    case True
    with "1.hyps"(2) "1.prems" show ?thesis by auto
  next
    case False
    have kids: "\<forall>x\<in>set (child_nodes (h ! node)).
        snd x < length h \<and> parent (h ! snd x) = Some node"
      using "1.prems"(1,3) by (simp add: tree_shape_def)
    have "\<forall>x\<in>set (child_nodes (h ! node)).
        \<exists>v. ucb h (snd x) (current_player board state \<noteq> bid) = Inr v"
    proof
      fix x assume x: "x \<in> set (child_nodes (h ! node))"
      with kids have c: "snd x < length h" "parent (h ! snd x) = Some node" by simp_all
      with "1.prems"(2) have "0 < visits (h ! snd x)" "0 < visits (h ! node)"
        by (simp_all add: visited_def)
      with c(2) show "\<exists>v. ucb h (snd x) (current_player board state \<noteq> bid) = Inr v"
        by (simp add: ucb_defined)
    qed
    from traverse_best_defined [OF this, of "(0, None)"]
    obtain v r where best: "traverse_best h (current_player board state \<noteq> bid) (0, None)
        (child_nodes (h ! node)) = Inr (v, r)"
      and r: "r = None \<or> (\<exists>x\<in>set (child_nodes (h ! node)). r = Some (snd x))"
      by auto
    show ?thesis
    proof (cases r)
      case None
      with False best "1.hyps"(2) "1.prems"(3) show ?thesis by auto
    next
      case (Some c)
      with r kids have c: "c < length h" by auto
      from False best Some "1.hyps"(2)
      have "tn h c board (next_state board state (parent_action (h ! c))) bid = Some res"
        by simp
      from "1.hyps"(1) [OF this "1.prems"(1,2) c] show ?thesis .
    qed
  qed
qed

lemma rollout_vanilla_error:
  assumes run: "rollout_vanilla board state g = Some res"
  shows "res = Inl e \<Longrightarrow> e = IndexError"
proof (induct rule: rollout_vanilla.raw_induct [OF _ run])
  case (1 rv board state g res)
  from "1.hyps"(2) "1.prems" show ?case
    by (auto simp: random_choice_def split: if_splits sum.splits option.splits prod.splits
        dest: "1.hyps"(1))
qed

lemma choose_action_error:
  "choose_action board t state prev g = Inl e \<Longrightarrow> e = IndexError"
  by (auto simp: choose_action_def random_choice_def split: option.splits if_splits)

lemma playout_modified_error:
  assumes run: "playout_modified board t state action_used prev g = Some res"
  shows "res = Inl e \<Longrightarrow> e = IndexError"
proof (induct rule: playout_modified.raw_induct [OF _ run])
  case (1 pm board t state action_used prev g res)
  from "1.hyps"(2) "1.prems" show ?case
    by (auto split: if_splits sum.splits option.splits prod.splits
        dest: "1.hyps"(1) choose_action_error)
qed

lemma is_win_error:
  "is_win board state bid = Inl e \<Longrightarrow> e = AssertionError \<or> e = KeyError"
  by (auto simp: is_win_def split: option.splits)

lemma rollout_modified_error:
  "rollout_modified board state bid t g = Some (Inl e) \<Longrightarrow>
   e = IndexError \<or> e = AssertionError \<or> e = KeyError"
  by (auto simp: rollout_modified_def Let_def split: option.splits sum.splits prod.splits
      dest: playout_modified_error is_win_error)

lemma iteration_vanilla_inv:
  assumes run: "iteration_vanilla board cs bid h g = Some res" and inv: "search_inv h"
  shows "case res of Inl e \<Rightarrow> benign e
         | Inr (h', g') \<Rightarrow> search_inv h' \<and> visits (h' ! 0) = visits (h ! 0) + 1"
proof -
  from inv have shape: "tree_shape h" and vis: "visited h" by (simp_all add: search_inv_def)
  then have root: "0 < length h" by (simp add: tree_shape_def)
  from run obtain tr where tr: "traverse_nodes h 0 board cs bid = Some tr"
    by (auto simp: iteration_vanilla_def split: option.splits)
  from traverse_nodes_inv [OF tr shape vis root]
  obtain node state where ns: "tr = Inr (node, state)" "node < length h" by blast
  show ?thesis
  proof (cases "expand_leaf h node board state g")
    case (Inl e)
    with expand_leaf_no_error [of h node board state g] have "benign e"
      by (auto simp: benign_def)
    with run tr ns Inl show ?thesis by (auto simp: iteration_vanilla_def)
  next
    case (Inr q)
    obtain h1 node1 state1 g1 where q: "q = (h1, node1, state1, g1)" by (cases q)
    from expand_leaf_inv [OF Inr [unfolded q] ns(2) shape vis]
    have e: "tree_shape h1" "visited_except h1 node1" "node1 < length h1"
      "visits (h1 ! 0) = visits (h ! 0)"
      by simp_all
    from run tr ns Inr q obtain ro where ro: "rollout_vanilla board state1 g1 = Some ro"
      by (auto simp: iteration_vanilla_def split: option.splits)
    show ?thesis
    proof (cases ro)
      case (Inl e)
      with rollout_vanilla_error [OF ro] have "benign e" by (simp add: benign_def)
      with run tr ns Inr q ro Inl show ?thesis by (auto simp: iteration_vanilla_def)
    next
      case (Inr q2)
      obtain rollout_state g2 where q2: "q2 = (rollout_state, g2)" by (cases q2)
      show ?thesis
      proof (cases "is_win board rollout_state bid")
        case (Inl e)
        with is_win_error have "benign e" by (auto simp: benign_def)
        with run tr ns \<open>expand_leaf h node board state g = Inr q\<close> q ro Inr q2 Inl
        show ?thesis by (auto simp: iteration_vanilla_def)
      next
        case (Inr win)
        from backpropagate_restores [OF e(1,2,3), of win]
        obtain h2 where h2: "backpropagate h1 (Some node1) win = Some h2"
          "tree_shape h2" "visited h2" "visits (h2 ! 0) = visits (h1 ! 0) + 1"
          by blast
        with run tr ns \<open>expand_leaf h node board state g = Inr q\<close> q ro
          \<open>ro = Inr q2\<close> q2 Inr e(4)
        show ?thesis by (auto simp: iteration_vanilla_def search_inv_def)
      qed
    qed
  qed
qed

lemma iteration_modified_inv:
  assumes run: "iteration_modified board cs bid h t g = Some res" and inv: "search_inv h"
  shows "case res of Inl e \<Rightarrow> benign e
         | Inr (h', t', g') \<Rightarrow> search_inv h' \<and> visits (h' ! 0) = visits (h ! 0) + 1"
proof -
  from inv have shape: "tree_shape h" and vis: "visited h" by (simp_all add: search_inv_def)
  then have root: "0 < length h" by (simp add: tree_shape_def)
  from run obtain tr where tr: "traverse_nodes h 0 board cs bid = Some tr"
    by (auto simp: iteration_modified_def split: option.splits)
  from traverse_nodes_inv [OF tr shape vis root]
  obtain node state where ns: "tr = Inr (node, state)" "node < length h" by blast
  show ?thesis
  proof (cases "expand_leaf h node board state g")
    case (Inl e)
    with expand_leaf_no_error [of h node board state g] have "benign e"
      by (auto simp: benign_def)
    with run tr ns Inl show ?thesis by (auto simp: iteration_modified_def)
  next
    case (Inr q)
    obtain h1 node1 state1 g1 where q: "q = (h1, node1, state1, g1)" by (cases q)
    from expand_leaf_inv [OF Inr [unfolded q] ns(2) shape vis]
    have e: "tree_shape h1" "visited_except h1 node1" "node1 < length h1"
      "visits (h1 ! 0) = visits (h ! 0)"
      by simp_all
    from run tr ns Inr q obtain ro where ro: "rollout_modified board state1 bid t g1 = Some ro"
      by (auto simp: iteration_modified_def split: option.splits)
    show ?thesis
    proof (cases ro)
      case (Inl e)
      with rollout_modified_error [of board state1 bid t g1 e] ro have "benign e"
        by (auto simp: benign_def)
      with run tr ns Inr q ro Inl show ?thesis by (auto simp: iteration_modified_def)
    next
      case (Inr q2)
      obtain rollout_state win t2 g2 where q2: "q2 = ((rollout_state, win), t2, g2)"
        by (cases q2) auto
      from backpropagate_restores [OF e(1,2,3), of win]
      obtain h2 where h2: "backpropagate h1 (Some node1) win = Some h2"
        "tree_shape h2" "visited h2" "visits (h2 ! 0) = visits (h1 ! 0) + 1"
        by blast
      with run tr ns \<open>expand_leaf h node board state g = Inr q\<close> q ro Inr q2 e(4)
      show ?thesis by (auto simp: iteration_modified_def search_inv_def)
    qed
  qed
qed

lemma loop_vanilla_inv:
  "loop_vanilla n board cs bid h g = Some res \<Longrightarrow> search_inv h \<Longrightarrow>
   (case res of Inl e \<Rightarrow> benign e
    | Inr (h', g') \<Rightarrow> search_inv h' \<and> visits (h' ! 0) = visits (h ! 0) + n)"
proof (induction n arbitrary: h g)
  case 0
  then show ?case by auto
next
  case (Suc n)
  from Suc.prems(1) obtain it where it: "iteration_vanilla board cs bid h g = Some it"
    by (auto split: option.splits)
  from iteration_vanilla_inv [OF it Suc.prems(2)]
  have step: "case it of Inl e \<Rightarrow> benign e
         | Inr (h', g') \<Rightarrow> search_inv h' \<and> visits (h' ! 0) = visits (h ! 0) + 1" .
  show ?case
  proof (cases it)
    case (Inl e)
    with it step Suc.prems(1) show ?thesis by auto
  next
    case (Inr q)
    obtain h1 g1 where q: "q = (h1, g1)" by (cases q)
    with Inr step have inv1: "search_inv h1" and v1: "visits (h1 ! 0) = visits (h ! 0) + 1"
      by simp_all
    from it Inr q Suc.prems(1) have "loop_vanilla n board cs bid h1 g1 = Some res" by simp
    from Suc.IH [OF this inv1] v1 show ?thesis
      by (auto split: sum.splits)
  qed
qed

lemma loop_modified_inv:
  "loop_modified n board cs bid h t g = Some res \<Longrightarrow> search_inv h \<Longrightarrow>
   (case res of Inl e \<Rightarrow> benign e
    | Inr (h', t', g') \<Rightarrow> search_inv h' \<and> visits (h' ! 0) = visits (h ! 0) + n)"
proof (induction n arbitrary: h t g)
  case 0
  then show ?case by auto
next
  case (Suc n)
  from Suc.prems(1) obtain it where it: "iteration_modified board cs bid h t g = Some it"
    by (auto split: option.splits)
  from iteration_modified_inv [OF it Suc.prems(2)]
  have step: "case it of Inl e \<Rightarrow> benign e
         | Inr (h', t', g') \<Rightarrow> search_inv h' \<and> visits (h' ! 0) = visits (h ! 0) + 1" .
  show ?case
  proof (cases it)
    case (Inl e)
    with it step Suc.prems(1) show ?thesis by auto
  next
    case (Inr q)
    obtain h1 t1 g1 where q: "q = (h1, t1, g1)" by (cases q)
    with Inr step have inv1: "search_inv h1" and v1: "visits (h1 ! 0) = visits (h ! 0) + 1"
      by simp_all
    from it Inr q Suc.prems(1) have "loop_modified n board cs bid h1 t1 g1 = Some res" by simp
    from Suc.IH [OF this inv1] v1 show ?thesis
      by (auto split: sum.splits)
  qed
qed

lemma search_inv_root: "search_inv [new_MCTSNode None None acts]"
  by (simp add: search_inv_def tree_shape_root visited_root)

lemma best_pick_loop_defined:
  "\<forall>x\<in>set cs. 0 < visits (h ! snd x) \<Longrightarrow> \<exists>r. best_pick_loop h best cs = Inr r"
proof (induction cs arbitrary: best)
  case Nil
  show ?case by simp
next
  case (Cons x rest)
  obtain a c where x: "x = (a, c)" by (cases x)
  with Cons.prems Cons.IH show ?case
    by (simp add: Let_def)
qed

lemma get_best_action_inv:
  assumes "search_inv h"
  shows "get_best_action h 0 \<noteq> Inl ZeroDivisionError \<and> get_best_action h 0 \<noteq> Inl ValueError"
proof -
  from assms have shape: "tree_shape h" and vis: "visited h" by (simp_all add: search_inv_def)
  then have root: "0 < length h" by (simp add: tree_shape_def)
  have "\<forall>x\<in>set (child_nodes (h ! 0)). 0 < visits (h ! snd x)"
  proof
    fix x assume "x \<in> set (child_nodes (h ! 0))"
    with shape root have "snd x < length h" "parent (h ! snd x) = Some 0"
      using tree_shape_child [of h 0 x] by simp_all
    with vis show "0 < visits (h ! snd x)" by (simp add: visited_def)
  qed
  from best_pick_loop_defined [OF this, of "(0, None)"]
  obtain r where "best_pick_loop h (0, None) (child_nodes (h ! 0)) = Inr r" by blast
  then show ?thesis
    by (simp add: get_best_action_def split: option.splits)
qed

lemma search_inv_visited:
  "search_inv h \<Longrightarrow> i < length h \<Longrightarrow> 0 < i \<Longrightarrow> 0 < visits (h ! i)"
  by (auto simp: search_inv_def tree_shape_def visited_def)

lemma think_vanilla_benign:
  "think_vanilla board cs g = Some (Inl e) \<Longrightarrow> benign e"
proof -
  assume run: "think_vanilla board cs g = Some (Inl e)"
  let ?root = "new_MCTSNode None None (legal_actions board cs)"
  from run obtain res where res:
      "loop_vanilla num_nodes_vanilla board cs (current_player board cs) [?root] g = Some res"
    by (auto simp: think_vanilla_def Let_def split: option.splits)
  from loop_vanilla_inv [OF res search_inv_root]
  have inv: "case res of Inl e \<Rightarrow> benign e
    | Inr (h', g') \<Rightarrow> search_inv h' \<and> visits (h' ! 0) = visits ([?root] ! 0) + num_nodes_vanilla" .
  show "benign e"
  proof (cases res)
    case (Inl e')
    with run res inv show ?thesis by (simp add: think_vanilla_def Let_def)
  next
    case (Inr q)
    obtain h' g' where q: "q = (h', g')" by (cases q)
    with Inr inv have "search_inv h'" by simp
    from get_best_action_inv [OF this] run res Inr q show ?thesis
      by (auto simp: think_vanilla_def Let_def benign_def)
  qed
qed

lemma think_modified_benign:
  "think_modified board cs t g = Some (Inl e) \<Longrightarrow> benign e"
proof -
  assume run: "think_modified board cs t g = Some (Inl e)"
  let ?root = "new_MCTSNode None None (legal_actions board cs)"
  from run obtain res where res:
      "loop_modified num_nodes_modified board cs (current_player board cs) [?root] t g = Some res"
    by (auto simp: think_modified_def Let_def split: option.splits)
  from loop_modified_inv [OF res search_inv_root]
  have inv: "case res of Inl e \<Rightarrow> benign e
    | Inr (h', t', g') \<Rightarrow> search_inv h' \<and> visits (h' ! 0) = visits ([?root] ! 0) + num_nodes_modified" .
  show "benign e"
  proof (cases res)
    case (Inl e')
    with run res inv show ?thesis by (simp add: think_modified_def Let_def)
  next
    case (Inr q)
    obtain h' t' g' where q: "q = (h', t', g')" by (cases q)
    with Inr inv have "search_inv h'" by simp
    from get_best_action_inv [OF this] run res Inr q show ?thesis
      by (auto simp: think_modified_def Let_def benign_def split: sum.splits)
  qed
qed

lemma ucb_zero_division:
  "(ucb h node opp = Inl ZeroDivisionError) = (visits (h ! node) = 0)"
  by (simp add: ucb_def Let_def split: option.splits)

section \<open>The search on the game of one move\<close>

lemma one_move_first_vanilla:
  "iteration_vanilla one_move_board (Some 0) 1 [new_MCTSNode None None [0]] (\<lambda>i. 0)
     = Some (Inr (one_move_tree 1, \<lambda>i. 0))"
proof -
  have t: "traverse_nodes [new_MCTSNode None None [0]] 0 one_move_board (Some 0) 1
           = Some (Inr (0, Some 0))"
    by (rule traverse_nodes_untried) (simp add: new_MCTSNode_def)
  have e: "expand_leaf [new_MCTSNode None None [0]] 0 one_move_board (Some 0) (\<lambda>i. 0)
           = Inr (one_move_tree 0, 1, Some 1, \<lambda>i. 0)"
    by (simp add: expand_leaf_def one_move_board_def random_choice_def new_MCTSNode_def Let_def
        one_move_tree_def)
  have r: "rollout_vanilla one_move_board (Some 1) (\<lambda>i. 0) = Some (Inr (Some 1, \<lambda>i. 0))"
    by (rule rollout_vanilla_ended) (simp add: one_move_board_def)
  have w: "is_win one_move_board (Some 1) 1 = Inr True"
    by (simp add: is_win_def one_move_board_def)
  have b: "backpropagate (one_move_tree 0) (Some 1) True = Some (one_move_tree 1)"
    by (simp add: backpropagate_step backpropagate_None tally_def one_move_tree_def)
  show ?thesis
    by (simp only: iteration_vanilla_def t e r w b option.case sum.case prod.case)
qed

lemma one_move_traverse:
  assumes "0 < k"
  shows "traverse_nodes (one_move_tree k) 0 one_move_board (Some 0) 1 = Some (Inr (1, Some 1))"
proof -
  have opp: "(current_player one_move_board (Some 0) \<noteq> 1) = False"
    by (simp add: one_move_board_def)
  from assms obtain v where v: "ucb (one_move_tree k) 1 False = Inr v" and "0 \<le> v"
    by (simp add: ucb_def one_move_tree_def explore_faction_def)
  then have best: "traverse_best (one_move_tree k) False (0, None)
                     (child_nodes (one_move_tree k ! 0)) = Inr (v, Some 1)"
    by (simp add: one_move_tree_def)
  have "traverse_nodes (one_move_tree k) 0 one_move_board (Some 0) 1 =
        traverse_nodes (one_move_tree k) 1 one_move_board
          (next_state one_move_board (Some 0) (parent_action (one_move_tree k ! 1))) 1"
    by (subst traverse_nodes.simps) (simp add: opp best, simp add: one_move_tree_def)
  also have "\<dots> = Some (Inr (1, Some 1))"
    by (subst traverse_nodes_childless) (simp_all add: one_move_tree_def one_move_board_def)
  finally show ?thesis .
qed

lemma one_move_next_vanilla:
  assumes "0 < k"
  shows "iteration_vanilla one_move_board (Some 0) 1 (one_move_tree k) (\<lambda>i. 0)
     = Some (Inr (one_move_tree (Suc k), \<lambda>i. 0))"
proof -
  have e: "expand_leaf (one_move_tree k) 1 one_move_board (Some 1) (\<lambda>i. 0)
           = Inr (one_move_tree k, 1, Some 1, \<lambda>i. 0)"
    by (simp add: expand_leaf_def one_move_board_def)
  have r: "rollout_vanilla one_move_board (Some 1) (\<lambda>i. 0) = Some (Inr (Some 1, \<lambda>i. 0))"
    by (rule rollout_vanilla_ended) (simp add: one_move_board_def)
  have w: "is_win one_move_board (Some 1) 1 = Inr True"
    by (simp add: is_win_def one_move_board_def)
  have b: "backpropagate (one_move_tree k) (Some 1) True = Some (one_move_tree (Suc k))"
    by (simp add: backpropagate_step backpropagate_None tally_def one_move_tree_def)
  show ?thesis
    by (simp only: iteration_vanilla_def one_move_traverse [OF assms] e r w b
        option.case sum.case prod.case)
qed

lemma one_move_loop_vanilla:
  "0 < k \<Longrightarrow> loop_vanilla n one_move_board (Some 0) 1 (one_move_tree k) (\<lambda>i. 0)
     = Some (Inr (one_move_tree (k + n), \<lambda>i. 0))"
proof (induction n arbitrary: k)
  case 0
  show ?case by simp
next
  case (Suc n)
  from Suc.IH [of "Suc k"] one_move_next_vanilla [OF Suc.prems] show ?case by simp
qed

lemma one_move_run_vanilla:
  "loop_vanilla (Suc n) one_move_board (Some 0) 1 [new_MCTSNode None None [0]] (\<lambda>i. 0)
     = Some (Inr (one_move_tree (Suc n), \<lambda>i. 0))"
  using one_move_loop_vanilla [of 1 n] by (simp add: one_move_first_vanilla)

lemma one_move_rollout_modified:
  "rollout_modified one_move_board (Some 1) 1 t (\<lambda>i. 0) = Some (Inr ((Some 1, True), t, \<lambda>i. 0))"
proof -
  have "is_ended one_move_board (Some 1)" by (simp add: one_move_board_def)
  moreover have "is_win one_move_board (Some 1) 1 = Inr True"
    by (simp add: is_win_def one_move_board_def)
  ultimately show ?thesis by (simp add: rollout_modified_ended)
qed

lemma one_move_first_modified:
  "iteration_modified one_move_board (Some 0) 1 [new_MCTSNode None None [0]] t (\<lambda>i. 0)
     = Some (Inr (one_move_tree 1, t, \<lambda>i. 0))"
proof -
  have tr: "traverse_nodes [new_MCTSNode None None [0]] 0 one_move_board (Some 0) 1
           = Some (Inr (0, Some 0))"
    by (rule traverse_nodes_untried) (simp add: new_MCTSNode_def)
  have e: "expand_leaf [new_MCTSNode None None [0]] 0 one_move_board (Some 0) (\<lambda>i. 0)
           = Inr (one_move_tree 0, 1, Some 1, \<lambda>i. 0)"
    by (simp add: expand_leaf_def one_move_board_def random_choice_def new_MCTSNode_def Let_def
        one_move_tree_def)
  have b: "backpropagate (one_move_tree 0) (Some 1) True = Some (one_move_tree 1)"
    by (simp add: backpropagate_step backpropagate_None tally_def one_move_tree_def)
  show ?thesis
    by (simp only: iteration_modified_def tr e one_move_rollout_modified b
        option.case sum.case prod.case)
qed

lemma one_move_next_modified:
  assumes "0 < k"
  shows "iteration_modified one_move_board (Some 0) 1 (one_move_tree k) t (\<lambda>i. 0)
     = Some (Inr (one_move_tree (Suc k), t, \<lambda>i. 0))"
proof -
  have e: "expand_leaf (one_move_tree k) 1 one_move_board (Some 1) (\<lambda>i. 0)
           = Inr (one_move_tree k, 1, Some 1, \<lambda>i. 0)"
    by (simp add: expand_leaf_def one_move_board_def)
  have b: "backpropagate (one_move_tree k) (Some 1) True = Some (one_move_tree (Suc k))"
    by (simp add: backpropagate_step backpropagate_None tally_def one_move_tree_def)
  show ?thesis
    by (simp only: iteration_modified_def one_move_traverse [OF assms] e
        one_move_rollout_modified b option.case sum.case prod.case)
qed

lemma one_move_loop_modified:
  "0 < k \<Longrightarrow> loop_modified n one_move_board (Some 0) 1 (one_move_tree k) t (\<lambda>i. 0)
     = Some (Inr (one_move_tree (k + n), t, \<lambda>i. 0))"
proof (induction n arbitrary: k)
  case 0
  show ?case by simp
next
  case (Suc n)
  from Suc.IH [of "Suc k"] one_move_next_modified [OF Suc.prems] show ?case by simp
qed

lemma one_move_run_modified:
  "loop_modified (Suc n) one_move_board (Some 0) 1 [new_MCTSNode None None [0]] t (\<lambda>i. 0)
     = Some (Inr (one_move_tree (Suc n), t, \<lambda>i. 0))"
  using one_move_loop_modified [of 1 n] by (simp add: one_move_first_modified)

lemma one_move_best_action:
  "0 < k \<Longrightarrow> get_best_action (one_move_tree k) 0 = Inr (Some 0)"
  by (simp add: get_best_action_def one_move_tree_def Let_def)

lemma one_move_think_vanilla:
  "think_vanilla one_move_board (Some 0) (\<lambda>i. 0) = Some (Inr (Some 0))"
proof -
  have root: "legal_actions one_move_board (Some 0) = [0]"
    and bid: "current_player one_move_board (Some 0) = 1"
    by (simp_all add: one_move_board_def)
  have run: "loop_vanilla num_nodes_vanilla one_move_board (Some 0) 1
               [new_MCTSNode None None [0]] (\<lambda>i. 0)
             = Some (Inr (one_move_tree 100, \<lambda>i. 0))"
    using one_move_run_vanilla [of 99] by (simp add: num_nodes_vanilla_def)
  have "get_best_action (one_move_tree 100) 0 = Inr (Some 0)"
    by (rule one_move_best_action) simp
  then show ?thesis
    by (simp only: think_vanilla_def Let_def root bid run option.case sum.case prod.case)
qed

lemma one_move_think_modified:
  "think_modified one_move_board (Some 0) t (\<lambda>i. 0) = Some (Inr (Some 0, t))"
proof -
  have root: "legal_actions one_move_board (Some 0) = [0]"
    and bid: "current_player one_move_board (Some 0) = 1"
    by (simp_all add: one_move_board_def)
  have run: "loop_modified num_nodes_modified one_move_board (Some 0) 1
               [new_MCTSNode None None [0]] t (\<lambda>i. 0)
             = Some (Inr (one_move_tree 900, t, \<lambda>i. 0))"
    using one_move_run_modified [of 899] by (simp add: num_nodes_modified_def)
  have "get_best_action (one_move_tree 900) 0 = Inr (Some 0)"
    by (rule one_move_best_action) simp
  then show ?thesis
    by (simp only: think_modified_def Let_def root bid run option.case sum.case prod.case)
qed

section \<open>Wins never exceed visits\<close>

lemma stats_inv_update:
  "stats_inv h \<Longrightarrow> wins n \<le> visits n \<Longrightarrow> stats_inv (h[r := n])"
  unfolding stats_inv_def by (auto dest: set_update_subset_insert [THEN subsetD])

lemma stats_inv_nth: "stats_inv h \<Longrightarrow> r < length h \<Longrightarrow> wins (h ! r) \<le> visits (h ! r)"
  by (simp add: stats_inv_def)

lemma stats_inv_tally:
  assumes "stats_inv h"
  shows "stats_inv (h[r := tally won (h ! r)])"
proof (cases "r < length h")
  case True
  with assms have "wins (h ! r) \<le> visits (h ! r)" by (rule stats_inv_nth)
  then have "wins (tally won (h ! r)) \<le> visits (tally won (h ! r))"
    by (simp add: tally_def)
  with assms show ?thesis by (rule stats_inv_update)
next
  case False
  with assms show ?thesis by (simp add: list_update_beyond)
qed

lemma backpropagate_stats:
  assumes "backpropagate h n won = Some h'"
  shows "stats_inv h \<Longrightarrow> stats_inv h'"
proof (induct rule: backpropagate.raw_induct [OF _ assms])
  case (1 bp h n won h')
  show ?case
  proof (cases n)
    case None
    with "1.hyps"(2) "1.prems" show ?thesis by simp
  next
    case (Some r)
    let ?h1 = "if won then h[r := (h ! r)\<lparr>wins := wins (h ! r) + 1\<rparr>] else h"
    let ?h2 = "?h1[r := (?h1 ! r)\<lparr>visits := visits (?h1 ! r) + 1\<rparr>]"
    from "1.hyps"(2) Some have run: "bp ?h2 (parent (?h2 ! r)) won = Some h'"
      by (simp add: Let_def)
    have "?h2 = h[r := tally won (h ! r)]"
      by (cases "r < length h") (simp_all add: tally_def list_update_beyond)
    with "1.prems" have inv2: "stats_inv ?h2"
      by (simp only: stats_inv_tally)
    from "1.hyps"(1) [OF run inv2] show ?thesis .
  qed
qed

lemma stats_inv_append:
  "stats_inv h \<Longrightarrow> wins n \<le> visits n \<Longrightarrow> stats_inv (h @ [n])"
  by (simp add: stats_inv_def)

lemma stats_inv_field_update:
  assumes "stats_inv h" and "wins n = wins (h ! r)" and "visits n = visits (h ! r)"
  shows "stats_inv (h[r := n])"
proof (cases "r < length h")
  case True
  with assms(1) have "wins (h ! r) \<le> visits (h ! r)" by (rule stats_inv_nth)
  with assms show ?thesis by (simp add: stats_inv_update)
next
  case False
  with assms(1) show ?thesis by (simp add: list_update_beyond)
qed

lemma expand_leaf_stats:
  assumes "expand_leaf h node board state g = Inr (h', node', state', g')" and "stats_inv h"
  shows "stats_inv h'"
proof (cases "\<not> is_ended board state \<and> length (untried_actions (h ! node)) > 0")
  case False
  with assms show ?thesis by (auto simp: expand_leaf_def)
next
  case True
  then obtain a g1 where c: "random_choice (untried_actions (h ! node)) g = Inr (a, g1)"
    by (auto simp: random_choice_def)
  let ?h1 = "h[node := (h ! node)\<lparr>untried_actions := remove1 a (untried_actions (h ! node))\<rparr>]"
  let ?new = "new_MCTSNode (Some node) (Some a)
                (legal_actions board (next_state board state (Some a)))"
  let ?h2 = "?h1 @ [?new]"
  let ?h3 = "?h2[node := (?h2 ! node)
               \<lparr>child_nodes := AList.update a (length ?h1) (child_nodes (?h2 ! node))\<rparr>]"
  from assms(1) True c have h': "h' = ?h3"
    by (auto simp: expand_leaf_def Let_def)
  from assms(2) have "stats_inv ?h1"
    by (rule stats_inv_field_update) simp_all
  then have "stats_inv ?h2"
    by (rule stats_inv_append) (simp add: new_MCTSNode_def)
  then have "stats_inv ?h3"
    by (rule stats_inv_field_update) simp_all
  with h' show ?thesis by simp
qed


lemma iteration_vanilla_stats:
  assumes "iteration_vanilla b s bid h g = Some (Inr (h', g'))" and "stats_inv h"
  shows "stats_inv h'"
  using assms
  by (auto simp: iteration_vanilla_def
      split: option.splits sum.splits prod.splits
      dest: expand_leaf_stats backpropagate_stats)

lemma loop_vanilla_stats:
  "loop_vanilla n b s bid h g = Some (Inr (h', g')) \<Longrightarrow> stats_inv h \<Longrightarrow> stats_inv h'"
proof (induction n arbitrary: h g)
  case 0
  then show ?case by simp
next
  case (Suc n)
  from Suc.prems(1) obtain h1 g1 where it: "iteration_vanilla b s bid h g = Some (Inr (h1, g1))"
    and rest: "loop_vanilla n b s bid h1 g1 = Some (Inr (h', g'))"
    by (auto split: option.splits sum.splits)
  from it Suc.prems(2) have "stats_inv h1" by (rule iteration_vanilla_stats)
  with rest show ?case by (rule Suc.IH)
qed

lemma iteration_modified_stats:
  assumes "iteration_modified b s bid h t g = Some (Inr (h', t', g'))" and "stats_inv h"
  shows "stats_inv h'"
  using assms
  by (auto simp: iteration_modified_def
      split: option.splits sum.splits prod.splits
      dest: expand_leaf_stats backpropagate_stats)

lemma loop_modified_stats:
  "loop_modified n b s bid h t g = Some (Inr (h', t', g')) \<Longrightarrow> stats_inv h \<Longrightarrow> stats_inv h'"
proof (induction n arbitrary: h t g)
  case 0
  then show ?case by simp
next
  case (Suc n)
  from Suc.prems(1) obtain h1 t1 g1
    where it: "iteration_modified b s bid h t g = Some (Inr (h1, t1, g1))"
    and rest: "loop_modified n b s bid h1 t1 g1 = Some (Inr (h', t', g'))"
    by (auto split: option.splits sum.splits)
  from it Suc.prems(2) have "stats_inv h1" by (rule iteration_modified_stats)
  with rest show ?case by (rule Suc.IH)
qed

lemma stats_inv_root: "stats_inv [new_MCTSNode p pa acts]"
  by (simp add: stats_inv_def new_MCTSNode_def)

lemma win_rate_bounds:
  assumes "stats_inv h" and "i < length h" and "0 < visits (h ! i)"
  shows "0 \<le> win_rate h i \<and> win_rate h i \<le> 1"
proof -
  from assms(1,2) have "wins (h ! i) \<le> visits (h ! i)" by (rule stats_inv_nth)
  with assms(3) show ?thesis by (simp add: win_rate_def)
qed

text \<open>
  C10. Every node has \<open>wins \<le> visits\<close>: a node is created with both counters at 0;
  the expansion and every call of \<^verbatim>\<open>backpropagate\<close> keep the invariant of the
  store; so it holds after any number of iterations of either search loop; and a node
  with at least one visit has a win rate between 0 and 1.
\<close>

theorem wins_le_visits:
  "wins (new_MCTSNode p pa acts) = 0 \<and> visits (new_MCTSNode p pa acts) = 0
   \<and> stats_inv [new_MCTSNode p pa acts]
   \<and> (stats_inv h \<and> expand_leaf h node board state g = Inr (h1, node1, state1, g1)
        \<longrightarrow> stats_inv h1)
   \<and> (stats_inv h \<and> backpropagate h leaf won = Some h2 \<longrightarrow> stats_inv h2)
   \<and> (loop_vanilla n board current_state bid [new_MCTSNode None None acts] g
          = Some (Inr (h3, g3)) \<longrightarrow> stats_inv h3)
   \<and> (loop_modified n board current_state bid [new_MCTSNode None None acts] t g
          = Some (Inr (h4, t4, g4)) \<longrightarrow> stats_inv h4)
   \<and> (stats_inv h \<and> i < length h \<and> 0 < visits (h ! i)
        \<longrightarrow> 0 \<le> real (wins (h ! i)) / real (visits (h ! i))
            \<and> real (wins (h ! i)) / real (visits (h ! i)) \<le> 1)"
proof (intro conjI impI)
  show "wins (new_MCTSNode p pa acts) = 0" "visits (new_MCTSNode p pa acts) = 0"
    by (simp_all add: new_MCTSNode_def)
  show "stats_inv [new_MCTSNode p pa acts]"
    by (rule stats_inv_root)
next
  assume "stats_inv h \<and> expand_leaf h node board state g = Inr (h1, node1, state1, g1)"
  then show "stats_inv h1"
    using expand_leaf_stats by blast
next
  assume "stats_inv h \<and> backpropagate h leaf won = Some h2"
  then show "stats_inv h2"
    using backpropagate_stats by blast
next
  assume "loop_vanilla n board current_state bid [new_MCTSNode None None acts] g
          = Some (Inr (h3, g3))"
  then show "stats_inv h3"
    using stats_inv_root by (rule loop_vanilla_stats)
next
  assume "loop_modified n board current_state bid [new_MCTSNode None None acts] t g
          = Some (Inr (h4, t4, g4))"
  then show "stats_inv h4"
    using stats_inv_root by (rule loop_modified_stats)
next
  assume a: "stats_inv h \<and> i < length h \<and> 0 < visits (h ! i)"
  then have "0 \<le> win_rate h i \<and> win_rate h i \<le> 1"
    by (simp add: win_rate_bounds)
  then show "0 \<le> real (wins (h ! i)) / real (visits (h ! i))"
    and "real (wins (h ! i)) / real (visits (h ! i)) \<le> 1"
    by (simp_all add: win_rate_def)
qed

text \<open>
  After the first iteration on the game of two moves the invariant holds and the new
  child has a win rate of 1.
\<close>

theorem wins_le_visits_witness:
  "stats_inv [new_MCTSNode None None [0, 1 :: nat]]
   \<and> loop_vanilla (Suc 0) race_board (Some 0) 1 [new_MCTSNode None None [0, 1]] (\<lambda>i. 0)
       = Some (Inr (race_tree1, \<lambda>i. 0))
   \<and> stats_inv race_tree1
   \<and> 1 < length race_tree1 \<and> 0 < visits (race_tree1 ! 1)
   \<and> 0 \<le> real (wins (race_tree1 ! 1)) / real (visits (race_tree1 ! 1))
   \<and> real (wins (race_tree1 ! 1)) / real (visits (race_tree1 ! 1)) \<le> 1"
proof -
  have run: "loop_vanilla (Suc 0) race_board (Some 0) 1 [new_MCTSNode None None [0, 1]] (\<lambda>i. 0)
       = Some (Inr (race_tree1, \<lambda>i. 0))"
    by (simp add: iteration_race_1 del: One_nat_def)
  have l: "1 < length race_tree1" "0 < visits (race_tree1 ! 1)"
    by (simp_all add: race_tree1_def)
  note inst = wins_le_visits [where acts="[0, 1 :: nat]" and n="Suc 0" and board=race_board
      and current_state="Some 0" and bid=1 and g="\<lambda>i. 0" and ?h3.0=race_tree1
      and ?g3.0="\<lambda>i. 0" and h=race_tree1 and i=1 and p=None and pa=None]
  from inst run have inv: "stats_inv race_tree1" by blast
  with inst l have "0 \<le> real (wins (race_tree1 ! 1)) / real (visits (race_tree1 ! 1))
      \<and> real (wins (race_tree1 ! 1)) / real (visits (race_tree1 ! 1)) \<le> 1"
    by blast
  with inst run inv l show ?thesis by blast
qed

section \<open>The selection policy is read on visited nodes only\<close>

text \<open>
  C5. \<^verbatim>\<open>ucb\<close> raises \<^verbatim>\<open>ZeroDivisionError\<close> exactly on a node without visits, and
  \<^verbatim>\<open>think\<close> never ends with that error nor with the \<^verbatim>\<open>ValueError\<close> of the logarithm,
  in either variant: after any number of completed iterations the invariant of the
  search loop holds, so every node but the root has been visited (the iteration that
  created it backpropagated through it), and on a store with the invariant the
  traversal evaluates \<^verbatim>\<open>ucb\<close> without any error and returns a node of the store.
\<close>

theorem ucb_only_on_visited_nodes:
  "(ucb h node opp = Inl ZeroDivisionError) = (visits (h ! node) = 0)
   \<and> think_vanilla board cs g \<noteq> Some (Inl ZeroDivisionError)
   \<and> think_vanilla board cs g \<noteq> Some (Inl ValueError)
   \<and> think_modified board cs t g \<noteq> Some (Inl ZeroDivisionError)
   \<and> think_modified board cs t g \<noteq> Some (Inl ValueError)
   \<and> (loop_vanilla n board cs bid [new_MCTSNode None None acts] g = Some (Inr (h1, g1))
        \<longrightarrow> search_inv h1 \<and> (\<forall>i<length h1. 0 < i \<longrightarrow> 0 < visits (h1 ! i)))
   \<and> (loop_modified n board cs bid [new_MCTSNode None None acts] t g = Some (Inr (h2, t2, g2))
        \<longrightarrow> search_inv h2 \<and> (\<forall>i<length h2. 0 < i \<longrightarrow> 0 < visits (h2 ! i)))
   \<and> (search_inv h \<and> traverse_nodes h 0 board cs bid = Some res
        \<longrightarrow> (\<exists>node' state'. res = Inr (node', state') \<and> node' < length h))"
proof (intro conjI impI)
  show "(ucb h node opp = Inl ZeroDivisionError) = (visits (h ! node) = 0)"
    by (rule ucb_zero_division)
  show "think_vanilla board cs g \<noteq> Some (Inl ZeroDivisionError)"
    "think_vanilla board cs g \<noteq> Some (Inl ValueError)"
    using think_vanilla_benign [of board cs g] by (auto simp: benign_def)
  show "think_modified board cs t g \<noteq> Some (Inl ZeroDivisionError)"
    "think_modified board cs t g \<noteq> Some (Inl ValueError)"
    using think_modified_benign [of board cs t g] by (auto simp: benign_def)
next
  assume "loop_vanilla n board cs bid [new_MCTSNode None None acts] g = Some (Inr (h1, g1))"
  from loop_vanilla_inv [OF this search_inv_root] show "search_inv h1" by simp
  then show "\<forall>i<length h1. 0 < i \<longrightarrow> 0 < visits (h1 ! i)"
    by (simp add: search_inv_visited)
next
  assume "loop_modified n board cs bid [new_MCTSNode None None acts] t g
            = Some (Inr (h2, t2, g2))"
  from loop_modified_inv [OF this search_inv_root] show "search_inv h2" by simp
  then show "\<forall>i<length h2. 0 < i \<longrightarrow> 0 < visits (h2 ! i)"
    by (simp add: search_inv_visited)
next
  assume a: "search_inv h \<and> traverse_nodes h 0 board cs bid = Some res"
  then have "tree_shape h" "visited h" "0 < length h"
    by (simp_all add: search_inv_def tree_shape_def)
  with a show "\<exists>node' state'. res = Inr (node', state') \<and> node' < length h"
    using traverse_nodes_inv [of h 0 board cs bid res] by blast
qed

text \<open>On the game of one move, three iterations leave a child with three visits.\<close>

theorem ucb_only_on_visited_nodes_witness:
  "loop_vanilla (Suc 2) one_move_board (Some 0) 1 [new_MCTSNode None None [0]] (\<lambda>i. 0)
     = Some (Inr (one_move_tree 3, \<lambda>i. 0))
   \<and> search_inv (one_move_tree 3)
   \<and> length (one_move_tree 3) = 2 \<and> 0 < visits (one_move_tree 3 ! 1)
   \<and> traverse_nodes (one_move_tree 3) 0 one_move_board (Some 0) 1 = Some (Inr (1, Some 1))
   \<and> (\<exists>v. ucb (one_move_tree 3) 1 False = Inr v)"
proof -
  note inst = ucb_only_on_visited_nodes [where board=one_move_board and cs="Some 0"
      and g="\<lambda>i. 0" and n="Suc 2" and bid=1 and acts="[0]" and ?h1.0="one_move_tree 3"
      and ?g1.0="\<lambda>i. 0" and h="one_move_tree 3" and node=1 and opp=False]
  have run: "loop_vanilla (Suc 2) one_move_board (Some 0) 1 [new_MCTSNode None None [0]] (\<lambda>i. 0)
     = Some (Inr (one_move_tree 3, \<lambda>i. 0))"
    using one_move_run_vanilla [of 2] by simp
  have len: "length (one_move_tree 3) = 2"
    by (simp add: one_move_tree_def)
  from inst run have inv: "search_inv (one_move_tree 3)"
    and all: "\<forall>i<length (one_move_tree 3). 0 < i \<longrightarrow> 0 < visits (one_move_tree 3 ! i)"
    by blast+
  from all len have vis: "0 < visits (one_move_tree 3 ! 1)" by simp
  have tr: "traverse_nodes (one_move_tree 3) 0 one_move_board (Some 0) 1
            = Some (Inr (1, Some 1))"
    by (rule one_move_traverse) simp
  from inst vis have "ucb (one_move_tree 3) 1 False \<noteq> Inl ZeroDivisionError"
    by simp
  moreover have "\<exists>v. ucb (one_move_tree 3) 1 False = Inr v"
    by (simp add: ucb_def one_move_tree_def)
  ultimately show ?thesis
    using run inv len vis tr by blast
qed

section \<open>The visits of the root\<close>

text \<open>
  C9. The budget is 100 iterations in the vanilla variant and 900 in the modified one.
  Every iteration that completes adds exactly one visit to the root, so a search loop of
  \<open>n\<close> iterations that completes leaves the root with \<open>n\<close> visits; when \<^verbatim>\<open>think\<close>
  returns an action its loop has completed and the root has 100 visits (vanilla), 900
  visits (modified).
\<close>

theorem root_visits_equal_budget:
  "num_nodes_vanilla = 100 \<and> num_nodes_modified = 900
   \<and> (search_inv h \<and> iteration_vanilla board cs bid h g = Some (Inr (h1, g1))
        \<longrightarrow> visits (h1 ! 0) = visits (h ! 0) + 1)
   \<and> (search_inv h \<and> iteration_modified board cs bid h t g = Some (Inr (h2, t2, g2))
        \<longrightarrow> visits (h2 ! 0) = visits (h ! 0) + 1)
   \<and> (loop_vanilla n board cs bid [new_MCTSNode None None acts] g = Some (Inr (h3, g3))
        \<longrightarrow> visits (h3 ! 0) = n)
   \<and> (loop_modified n board cs bid [new_MCTSNode None None acts] t g = Some (Inr (h4, t4, g4))
        \<longrightarrow> visits (h4 ! 0) = n)
   \<and> (think_vanilla board cs g = Some (Inr a)
        \<longrightarrow> (\<exists>h' g'. loop_vanilla num_nodes_vanilla board cs (current_player board cs)
                       [new_MCTSNode None None (legal_actions board cs)] g = Some (Inr (h', g'))
                     \<and> visits (h' ! 0) = 100 \<and> get_best_action h' 0 = Inr a))
   \<and> (think_modified board cs t g = Some (Inr (a, t'))
        \<longrightarrow> (\<exists>h' g'. loop_modified num_nodes_modified board cs (current_player board cs)
                       [new_MCTSNode None None (legal_actions board cs)] t g
                         = Some (Inr (h', t', g'))
                     \<and> visits (h' ! 0) = 900 \<and> get_best_action h' 0 = Inr a))"
proof (intro conjI impI)
  show "num_nodes_vanilla = 100" "num_nodes_modified = 900"
    by (simp_all add: num_nodes_vanilla_def num_nodes_modified_def)
next
  assume "search_inv h \<and> iteration_vanilla board cs bid h g = Some (Inr (h1, g1))"
  then show "visits (h1 ! 0) = visits (h ! 0) + 1"
    using iteration_vanilla_inv [of board cs bid h g "Inr (h1, g1)"] by simp
next
  assume "search_inv h \<and> iteration_modified board cs bid h t g = Some (Inr (h2, t2, g2))"
  then show "visits (h2 ! 0) = visits (h ! 0) + 1"
    using iteration_modified_inv [of board cs bid h t g "Inr (h2, t2, g2)"] by simp
next
  assume "loop_vanilla n board cs bid [new_MCTSNode None None acts] g = Some (Inr (h3, g3))"
  from loop_vanilla_inv [OF this search_inv_root] show "visits (h3 ! 0) = n"
    by (simp add: new_MCTSNode_def)
next
  assume "loop_modified n board cs bid [new_MCTSNode None None acts] t g
            = Some (Inr (h4, t4, g4))"
  from loop_modified_inv [OF this search_inv_root] show "visits (h4 ! 0) = n"
    by (simp add: new_MCTSNode_def)
next
  assume run: "think_vanilla board cs g = Some (Inr a)"
  then obtain h' g' where l: "loop_vanilla num_nodes_vanilla board cs (current_player board cs)
        [new_MCTSNode None None (legal_actions board cs)] g = Some (Inr (h', g'))"
    and b: "get_best_action h' 0 = Inr a"
    by (auto simp: think_vanilla_def Let_def split: option.splits sum.splits)
  from loop_vanilla_inv [OF l search_inv_root] have "visits (h' ! 0) = 100"
    by (simp add: new_MCTSNode_def num_nodes_vanilla_def)
  with l b show "\<exists>h' g'. loop_vanilla num_nodes_vanilla board cs (current_player board cs)
                       [new_MCTSNode None None (legal_actions board cs)] g = Some (Inr (h', g'))
                     \<and> visits (h' ! 0) = 100 \<and> get_best_action h' 0 = Inr a"
    by blast
next
  assume run: "think_modified board cs t g = Some (Inr (a, t'))"
  then obtain h' g' where l: "loop_modified num_nodes_modified board cs (current_player board cs)
        [new_MCTSNode None None (legal_actions board cs)] t g = Some (Inr (h', t', g'))"
    and b: "get_best_action h' 0 = Inr a"
    by (auto simp: think_modified_def Let_def split: option.splits sum.splits)
  from loop_modified_inv [OF l search_inv_root] have "visits (h' ! 0) = 900"
    by (simp add: new_MCTSNode_def num_nodes_modified_def)
  with l b show "\<exists>h' g'. loop_modified num_nodes_modified board cs (current_player board cs)
                       [new_MCTSNode None None (legal_actions board cs)] t g
                         = Some (Inr (h', t', g'))
                     \<and> visits (h' ! 0) = 900 \<and> get_best_action h' 0 = Inr a"
    by blast
qed

text \<open>On the game of one move both variants return action 0.\<close>

theorem root_visits_equal_budget_witness:
  "think_vanilla one_move_board (Some 0) (\<lambda>i. 0) = Some (Inr (Some 0))
   \<and> (\<exists>h' g'. loop_vanilla num_nodes_vanilla one_move_board (Some 0)
                 (current_player one_move_board (Some 0))
                 [new_MCTSNode None None (legal_actions one_move_board (Some 0))] (\<lambda>i. 0)
                   = Some (Inr (h', g'))
               \<and> visits (h' ! 0) = 100 \<and> get_best_action h' 0 = Inr (Some 0))
   \<and> think_modified one_move_board (Some 0) Map.empty (\<lambda>i. 0) = Some (Inr (Some 0, Map.empty))
   \<and> (\<exists>h' g'. loop_modified num_nodes_modified one_move_board (Some 0)
                 (current_player one_move_board (Some 0))
                 [new_MCTSNode None None (legal_actions one_move_board (Some 0))]
                 Map.empty (\<lambda>i. 0) = Some (Inr (h', Map.empty, g'))
               \<and> visits (h' ! 0) = 900 \<and> get_best_action h' 0 = Inr (Some 0))"
proof -
  note inst = root_visits_equal_budget [where board=one_move_board and cs="Some 0"
      and g="\<lambda>i. 0" and a="Some 0" and t=Map.empty and t'=Map.empty]
  from inst one_move_think_vanilla
  have "\<exists>h' g'. loop_vanilla num_nodes_vanilla one_move_board (Some 0)
                 (current_player one_move_board (Some 0))
                 [new_MCTSNode None None (legal_actions one_move_board (Some 0))] (\<lambda>i. 0)
                   = Some (Inr (h', g'))
               \<and> visits (h' ! 0) = 100 \<and> get_best_action h' 0 = Inr (Some 0)"
    by blast
  moreover from inst one_move_think_modified [of Map.empty]
  have "\<exists>h' g'. loop_modified num_nodes_modified one_move_board (Some 0)
                 (current_player one_move_board (Some 0))
                 [new_MCTSNode None None (legal_actions one_move_board (Some 0))]
                 Map.empty (\<lambda>i. 0) = Some (Inr (h', Map.empty, g'))
               \<and> visits (h' ! 0) = 900 \<and> get_best_action h' 0 = Inr (Some 0)"
    by blast
  ultimately show ?thesis
    using one_move_think_vanilla one_move_think_modified [of Map.empty] by blast
qed

end
